theory Spec2Isabelle
  imports Complex_Main "HOL-Library.Word"
begin

unbundle bit_operations_syntax

section \<open>LockFreeQueue.h: the single-producer single-consumer ring\<close>

text \<open>
  \<^verbatim>\<open>LockFreeQueue<T, Capacity>\<close> keeps two \<^verbatim>\<open>size_t\<close> indices and a fixed
  \<^verbatim>\<open>std::array<T, Capacity>\<close>. The indices are 64-bit words; the array is a function
  from the slot number to its element. \<^verbatim>\<open>Capacity\<close> is the template parameter; it is
  passed to every operation. The members \<^verbatim>\<open>head_\<close>, \<^verbatim>\<open>tail_\<close> and \<^verbatim>\<open>data_\<close> are
  the fields \<open>q_head\<close>, \<open>q_tail\<close> and \<open>q_data\<close> (a name cannot end in an underscore
  here). The atomics' memory orders have no sequential meaning and
  are left out: each operation below is one call running alone.
\<close>

record 'a LockFreeQueue =
  q_head :: "64 word"
  q_tail :: "64 word"
  q_data :: "nat \<Rightarrow> 'a"

definition LockFreeQueue_new :: "(nat \<Rightarrow> 'a) \<Rightarrow> 'a LockFreeQueue" where
  "LockFreeQueue_new d = \<lparr>q_head = 0, q_tail = 0, q_data = d\<rparr>"

definition increment :: "64 word \<Rightarrow> 64 word \<Rightarrow> 64 word" where
  "increment Capacity idx = (idx + 1) AND (Capacity - 1)"

definition push :: "64 word \<Rightarrow> 'a \<Rightarrow> 'a LockFreeQueue \<Rightarrow> bool \<times> 'a LockFreeQueue" where
  "push Capacity item q =
     (let current_tail = q_tail q;
          next_tail = increment Capacity current_tail
      in if next_tail = q_head q then (False, q)
         else (True, q\<lparr>q_data := (q_data q)(unat current_tail := item), q_tail := next_tail\<rparr>))"

definition pop :: "64 word \<Rightarrow> 'a LockFreeQueue \<Rightarrow> 'a option \<times> 'a LockFreeQueue" where
  "pop Capacity q =
     (let current_head = q_head q
      in if current_head = q_tail q then (None, q)
         else (Some (q_data q (unat current_head)),
               q\<lparr>q_head := increment Capacity current_head\<rparr>))"

definition isEmpty :: "'a LockFreeQueue \<Rightarrow> bool" where
  "isEmpty q = (q_head q = q_tail q)"

definition isFull :: "64 word \<Rightarrow> 'a LockFreeQueue \<Rightarrow> bool" where
  "isFull Capacity q = (increment Capacity (q_tail q) = q_head q)"

definition size_q :: "64 word \<Rightarrow> 'a LockFreeQueue \<Rightarrow> 64 word" where
  "size_q Capacity q =
     (let h = q_head q; t = q_tail q in if t \<ge> h then t - h else Capacity - h + t)"

text \<open>
  A producer that pushes the items of a list one after the other while the consumer
  never pops; the result lists what each \<^verbatim>\<open>push\<close> returned.
\<close>

fun push_all :: "64 word \<Rightarrow> 'a list \<Rightarrow> 'a LockFreeQueue \<Rightarrow> bool list \<times> 'a LockFreeQueue" where
  "push_all Capacity [] q = ([], q)"
| "push_all Capacity (x # xs) q =
     (case push Capacity x q of
        (ok, q') \<Rightarrow> (case push_all Capacity xs q' of (oks, q'') \<Rightarrow> (ok # oks, q'')))"

section \<open>LyricsAlignment.cpp: text normalisation\<close>

text \<open>
  A \<^verbatim>\<open>std::string\<close> is a list of bytes. \<^verbatim>\<open>::tolower\<close>, \<^verbatim>\<open>std::toupper\<close>,
  \<^verbatim>\<open>std::isalnum\<close> and \<^verbatim>\<open>std::isspace\<close> are those of the C locale: only ASCII
  letters change case, only ASCII letters and digits are alphanumeric, and the white
  space is the blank and the bytes 9 to 13.
\<close>

definition tolower_c :: "char \<Rightarrow> char" where
  "tolower_c c = (let n = (of_char c :: nat) in if 65 \<le> n \<and> n \<le> 90 then char_of (n + 32) else c)"

definition toupper_c :: "char \<Rightarrow> char" where
  "toupper_c c = (let n = (of_char c :: nat) in if 97 \<le> n \<and> n \<le> 122 then char_of (n - 32) else c)"

definition isalnum_c :: "char \<Rightarrow> bool" where
  "isalnum_c c = (let n = (of_char c :: nat) in
     (48 \<le> n \<and> n \<le> 57) \<or> (65 \<le> n \<and> n \<le> 90) \<or> (97 \<le> n \<and> n \<le> 122))"

definition isspace_c :: "char \<Rightarrow> bool" where
  "isspace_c c = (let n = (of_char c :: nat) in n = 32 \<or> (9 \<le> n \<and> n \<le> 13))"

text \<open>
  \<^verbatim>\<open>while (iss >> word) words.push_back(word)\<close>: the maximal runs of bytes that are not
  white space, in order. The first argument is the run read so far.
\<close>

fun read_words :: "string \<Rightarrow> string \<Rightarrow> string list" where
  "read_words cur [] = (if cur = [] then [] else [cur])"
| "read_words cur (c # cs) =
     (if isspace_c c then (if cur = [] then read_words [] cs else cur # read_words [] cs)
      else read_words (cur @ [c]) cs)"

text \<open>The loop that joins the words with one blank between two of them.\<close>

fun join_words :: "string list \<Rightarrow> string" where
  "join_words [] = []"
| "join_words [w] = w"
| "join_words (w # ws) = w @ '' '' @ join_words ws"

definition normalizeText :: "string \<Rightarrow> string" where
  "normalizeText text =
     (let result = map tolower_c text;
          result = filter (\<lambda>c. isalnum_c c \<or> isspace_c c) result;
          words = read_words [] result
      in join_words words)"

definition splitIntoWords :: "string \<Rightarrow> string list" where
  "splitIntoWords text = read_words [] (normalizeText text)"

section \<open>ProfanityFilter.h: the lexicon lookup\<close>

text \<open>
  The lexicon is the \<^verbatim>\<open>std::unordered_set<std::string>\<close> member; \<^verbatim>\<open>isProfane\<close> copies
  the word, lowers each byte with \<^verbatim>\<open>::tolower\<close> and looks the result up. The
  \<^verbatim>\<open>juce::String\<close> overload lowers the word once more and calls this one.
\<close>

definition isProfane :: "string set \<Rightarrow> string \<Rightarrow> bool" where
  "isProfane lexicon word = (let lower = map tolower_c word in lower \<in> lexicon)"


section \<open>LyricsAlignment.cpp: the forced aligner\<close>

text \<open>
  A \<^verbatim>\<open>double\<close> or \<^verbatim>\<open>float\<close> is the real number it stands for (there is no NaN and no
  infinity). In \<^verbatim>\<open>predictNextWords\<close> and in the worker's \<^verbatim>\<open>censorRegion\<close>, where a
  \<^verbatim>\<open>double\<close> is cast to an \<^verbatim>\<open>int\<close>, every operation on doubles is followed by the rounding
  of IEEE 754 (\<open>round_double\<close>) and the cast is the 32-bit one (\<open>cast_int\<close>). Elsewhere
  the operations are exact and a cast \<^verbatim>\<open>(int)x\<close> is the truncation \<open>trunc_int\<close>; there the
  model can differ from the code when a value lies within a rounding error of a threshold:
  \<^verbatim>\<open>calculateSimilarity\<close> computes in \<^verbatim>\<open>float\<close>, where \<^verbatim>\<open>1.0f - 0.8f\<close> is below \<^verbatim>\<open>0.20f\<close>,
  so at a similarity of exactly one fifth the code takes the weak branch of
  \<^verbatim>\<open>alignChunk\<close> and the model the branch of a decent match; and the position that
  \<^verbatim>\<open>alignChunk\<close> estimates from the time is exact up to one word, for times below six
  hundred million seconds.
  \<^verbatim>\<open>int\<close> values are unbounded integers: with the cursor within its bounds the sums and
  differences of the source stay within 32 bits.
  The field \<^verbatim>\<open>end\<close> of \<^verbatim>\<open>WordSegment\<close> is \<open>end_time\<close>, the field \<^verbatim>\<open>word\<close> of
  \<^verbatim>\<open>LyricsWord\<close> is \<open>lword\<close>.
\<close>

definition trunc_int :: "real \<Rightarrow> int" where
  "trunc_int x = (if 0 \<le> x then \<lfloor>x\<rfloor> else \<lceil>x\<rceil>)"

subsection \<open>Rounding to a double, and the cast to int\<close>

text \<open>
  The doubles between \<open>2 ^ e\<close> and \<open>2 ^ (e + 1)\<close> are the multiples of \<open>2 ^ (e - 52)\<close>;
  below \<open>2 ^ (- 1022)\<close> they are the multiples of \<open>2 ^ (- 1074)\<close>. \<open>exponent2 x\<close> is that
  \<open>e\<close> for a positive \<open>x\<close>, not below \<open>- 1022\<close>: \<open>halvings\<close> counts the halvings that
  bring \<open>x\<close> below 2, \<open>doublings\<close> the doublings that bring it to 1, at most 1022 of them.
  \<open>round_double\<close> rounds to the nearest of these multiples, and to the one with the even
  mantissa when two are as near. A result beyond the largest double, an infinity in the
  code, is left as it is: the only use of such a value here is a cast to \<^verbatim>\<open>int\<close>, out of
  range either way.
\<close>

function halvings :: "real \<Rightarrow> int" where
  "halvings x = (if x < 2 then 0 else 1 + halvings (x / 2))"
  by pat_completeness auto
termination
proof (relation "measure (\<lambda>x. nat \<lfloor>x\<rfloor>)")
  show "wf (measure (\<lambda>x. nat \<lfloor>x\<rfloor>))" by simp
next
  fix x :: real
  assume "\<not> x < 2"
  then have "x / 2 \<le> x - 1" by simp
  then have "\<lfloor>x / 2\<rfloor> \<le> \<lfloor>x - 1\<rfloor>" by (rule floor_mono)
  moreover have "2 \<le> \<lfloor>x\<rfloor>" using \<open>\<not> x < 2\<close> by (simp add: le_floor_iff)
  ultimately show "(x / 2, x) \<in> measure (\<lambda>x. nat \<lfloor>x\<rfloor>)" by simp
qed

declare halvings.simps [simp del]

fun doublings :: "nat \<Rightarrow> real \<Rightarrow> int" where
  "doublings 0 x = 0"
| "doublings (Suc k) x = (if 1 \<le> x then 0 else 1 + doublings k (2 * x))"

definition exponent2 :: "real \<Rightarrow> int" where
  "exponent2 x = (if 1 \<le> x then halvings x else - doublings 1022 x)"

definition ulp2 :: "int \<Rightarrow> real" where
  "ulp2 e = (if 52 \<le> e then 2 ^ nat (e - 52) else 1 / 2 ^ nat (52 - e))"

definition round_half_even :: "real \<Rightarrow> int" where
  "round_half_even q =
     (let f = \<lfloor>q\<rfloor>
      in if q - real_of_int f < 1 / 2 then f
         else if q - real_of_int f > 1 / 2 then f + 1
         else if even f then f else f + 1)"

definition round_double :: "real \<Rightarrow> real" where
  "round_double x =
     (if x = 0 then 0
      else let u = ulp2 (exponent2 \<bar>x\<bar>)
           in sgn x * (real_of_int (round_half_even (\<bar>x\<bar> / u)) * u))"

text \<open>
  The cast \<^verbatim>\<open>(int)x\<close> of a double truncates towards zero. When the truncated value does
  not fit the 32 bits of an \<^verbatim>\<open>int\<close> the C++ standard leaves the result undefined; the
  conversion instruction of x86-64 then gives \<open>- 2 ^ 31\<close>, which is what the model takes.
\<close>

definition cast_int :: "real \<Rightarrow> int" where
  "cast_int x =
     (let t = trunc_int x
      in if - 2147483648 \<le> t \<and> t \<le> 2147483647 then t else - 2147483648)"

record WordSegment =
  word :: string
  start :: real
  end_time :: real
  confidence :: real

record LyricsWord =
  index :: int
  lword :: string
  soundex :: string
  isOptional :: bool

record LyricsAlignment =
  preprocessedLyrics :: "LyricsWord list"
  currentPosition :: int
  locked :: bool
  consecutiveMatches :: int
  initialized :: bool

definition TEXT_MATCH_THRESHOLD :: real where "TEXT_MATCH_THRESHOLD = 20 / 100"
definition LOCK_THRESHOLD :: real where "LOCK_THRESHOLD = 80 / 100"
definition LOCK_REQUIRED_MATCHES :: int where "LOCK_REQUIRED_MATCHES = 2"
definition WORDS_PER_SECOND :: real where "WORDS_PER_SECOND = 35 / 10"

text \<open>The aligner as default-constructed (the in-class initialisers).\<close>

definition LyricsAlignment_new :: LyricsAlignment where
  "LyricsAlignment_new =
     \<lparr>preprocessedLyrics = [], currentPosition = 0, locked = False,
      consecutiveMatches = 0, initialized = False\<rparr>"

definition getTotalWords :: "LyricsAlignment \<Rightarrow> int" where
  "getTotalWords st = int (length (preprocessedLyrics st))"

definition isReady :: "LyricsAlignment \<Rightarrow> bool" where
  "isReady st = (initialized st \<and> preprocessedLyrics st \<noteq> [])"

subsection \<open>soundexEncode\<close>

definition soundex_digit :: "char \<Rightarrow> char" where
  "soundex_digit c =
     (if c \<in> set ''bfpv'' then CHR ''1''
      else if c \<in> set ''cgjkqsxz'' then CHR ''2''
      else if c \<in> set ''dt'' then CHR ''3''
      else if c = CHR ''l'' then CHR ''4''
      else if c \<in> set ''mn'' then CHR ''5''
      else if c = CHR ''r'' then CHR ''6''
      else CHR ''0'')"

fun soundex_loop :: "string \<Rightarrow> string \<Rightarrow> string" where
  "soundex_loop code [] = code"
| "soundex_loop code (c # cs) =
     (if length code < 4
      then (let digit = soundex_digit c
            in soundex_loop
                 (if digit \<noteq> CHR ''0'' \<and> (code = [] \<or> last code \<noteq> digit)
                  then code @ [digit] else code) cs)
      else code)"

definition soundexEncode :: "string \<Rightarrow> string" where
  "soundexEncode w =
     (if w = [] then []
      else let normalized = normalizeText w
           in if normalized = [] then []
              else let code = soundex_loop [toupper_c (hd normalized)] (tl normalized);
                       code = code @ replicate (4 - length code) (CHR ''0'')
                   in take 4 code)"

subsection \<open>setLyrics and reset\<close>

definition setLyrics :: "LyricsAlignment \<Rightarrow> string \<Rightarrow> LyricsAlignment" where
  "setLyrics st lyrics =
     (let words = splitIntoWords lyrics
      in st\<lparr>preprocessedLyrics :=
               map (\<lambda>(i, w). \<lparr>index = int i, lword = w, soundex = soundexEncode w,
                               isOptional = False\<rparr>)
                   (enumerate 0 words),
             currentPosition := 0, locked := False, consecutiveMatches := 0,
             initialized := True\<rparr>)"

definition reset :: "LyricsAlignment \<Rightarrow> LyricsAlignment" where
  "reset st =
     st\<lparr>currentPosition := 0, locked := False, consecutiveMatches := 0,
        initialized := False, preprocessedLyrics := []\<rparr>"

subsection \<open>isNonLyricalContent\<close>

text \<open>\<^verbatim>\<open>combined.find(pat) != std::string::npos\<close>: \<open>pat\<close> occurs in the text.\<close>

fun starts_with :: "string \<Rightarrow> string \<Rightarrow> bool" where
  "starts_with [] text = True"
| "starts_with (p # ps) [] = False"
| "starts_with (p # ps) (c # cs) = (p = c \<and> starts_with ps cs)"

fun str_contains :: "string \<Rightarrow> string \<Rightarrow> bool" where
  "str_contains pat [] = (pat = [])"
| "str_contains pat (c # cs) = (starts_with pat (c # cs) \<or> str_contains pat cs)"

definition isNonLyricalContent :: "WordSegment list \<Rightarrow> bool" where
  "isNonLyricalContent words =
     (if words = [] then True
      else let combined = concat (map (\<lambda>w. normalizeText (word w) @ '' '') words);
               combined = normalizeText combined
           in if combined = [] \<or> length combined < 2 then True
              else if str_contains ''music'' combined \<or> str_contains ''applause'' combined
                      \<or> str_contains ''laughter'' combined
                      \<or> str_contains ''instrumental'' combined
                   then True
                   else False)"

subsection \<open>calculateSimilarity\<close>

text \<open>
  The matrix \<^verbatim>\<open>dp\<close> is filled row by row. \<open>dp_row c s2 prev left\<close> is the rest of the row
  of the byte \<open>c\<close> of \<^verbatim>\<open>s1\<close>: \<open>prev\<close> is the row above from the column to the left on,
  \<open>left\<close> the entry just written.
\<close>

fun dp_row :: "char \<Rightarrow> string \<Rightarrow> nat list \<Rightarrow> nat \<Rightarrow> nat list" where
  "dp_row c (d # ds) (diag # up # prev) left =
     (let v = (if c = d then diag else 1 + min (min up left) diag)
      in v # dp_row c ds (up # prev) v)"
| "dp_row c ds prev left = []"

fun dp_rows :: "string \<Rightarrow> string \<Rightarrow> nat \<Rightarrow> nat list \<Rightarrow> nat list" where
  "dp_rows [] s2 i prev = prev"
| "dp_rows (c # cs) s2 i prev = dp_rows cs s2 (i + 1) ((i + 1) # dp_row c s2 prev (i + 1))"

definition editDistance :: "string \<Rightarrow> string \<Rightarrow> nat" where
  "editDistance s1 s2 = last (dp_rows s1 s2 0 [0 ..< length s2 + 1])"

definition calculateSimilarity :: "string \<Rightarrow> string \<Rightarrow> real" where
  "calculateSimilarity text1 text2 =
     (let s1 = normalizeText text1; s2 = normalizeText text2
      in if s1 = [] \<and> s2 = [] then 1
         else if s1 = [] \<or> s2 = [] then 0
         else if s1 = s2 then 1
         else let m = length s1; n = length s2;
                  distance = editDistance s1 s2;
                  maxLen = max m n
              in 1 - real distance / real maxLen)"

subsection \<open>findBestStartPosition and mapTimestamps\<close>

text \<open>
  The loop runs \<open>pos\<close> from \<open>searchStart\<close> while \<open>pos < searchEnd\<close> and \<open>pos\<close> is below the
  number of lyrics words: \<open>findBestStartPosition_loop\<close> takes the positions still to try
  and the pair \<^verbatim>\<open>(bestPosition, bestScore)\<close>; \<open>sz\<close> is \<^verbatim>\<open>transcribedWords.size()\<close>. The callers pass a
  \<open>searchStart\<close> that is not negative.
\<close>

definition lyricsWindowText :: "LyricsAlignment \<Rightarrow> int \<Rightarrow> int \<Rightarrow> string" where
  "lyricsWindowText st pos endPos =
     concat (map (\<lambda>w. lword w @ '' '')
                 (take (nat (endPos - pos)) (drop (nat pos) (preprocessedLyrics st))))"

fun findBestStartPosition_loop ::
  "LyricsAlignment \<Rightarrow> string \<Rightarrow> int \<Rightarrow> int list \<Rightarrow> int \<times> real \<Rightarrow> int \<times> real" where
  "findBestStartPosition_loop st transcribedText sz [] best = best"
| "findBestStartPosition_loop st transcribedText sz (pos # rest) (bestPosition, bestScore) =
     (let endPos = min (pos + sz) (int (length (preprocessedLyrics st)));
          lyricsText = normalizeText (lyricsWindowText st pos endPos);
          score = calculateSimilarity transcribedText lyricsText
      in findBestStartPosition_loop st transcribedText sz rest
           (if score > bestScore then (pos, score) else (bestPosition, bestScore)))"

definition findBestStartPosition ::
  "LyricsAlignment \<Rightarrow> WordSegment list \<Rightarrow> int \<Rightarrow> int \<Rightarrow> int \<times> real" where
  "findBestStartPosition st transcribedWords searchStart searchEnd =
     (let transcribedText = normalizeText (concat (map (\<lambda>w. word w @ '' '') transcribedWords));
          n = int (length (preprocessedLyrics st))
      in findBestStartPosition_loop st transcribedText (int (length transcribedWords))
           [searchStart .. min searchEnd n - 1] (- 1, 0))"

text \<open>
  \<^verbatim>\<open>mapTimestamps\<close>: the loop over \<open>i\<close> breaks at the first lyrics index past the end.
\<close>

definition mapTimestamps ::
  "LyricsAlignment \<Rightarrow> int \<Rightarrow> int \<Rightarrow> WordSegment list \<Rightarrow> WordSegment list" where
  "mapTimestamps st lyricsStart lyricsCount transcribed =
     (if transcribed = [] \<or> lyricsCount = 0 then []
      else let startTime = start (hd transcribed);
               endTime = end_time (last transcribed);
               totalDuration = endTime - startTime;
               timePerWord = totalDuration / real_of_int lyricsCount;
               avgConf = sum_list (map confidence transcribed) / real (length transcribed)
           in map (\<lambda>i. let wordStart = startTime + real_of_int i * timePerWord;
                            wordEnd = wordStart + timePerWord
                        in \<lparr>word = lword (preprocessedLyrics st ! nat (lyricsStart + i)),
                            start = wordStart, end_time = wordEnd,
                            confidence = avgConf * (95 / 100)\<rparr>)
                  (takeWhile (\<lambda>i. lyricsStart + i < int (length (preprocessedLyrics st)))
                             [0 .. lyricsCount - 1]))"

subsection \<open>alignChunk\<close>

text \<open>
  Step 2 of \<^verbatim>\<open>alignChunk\<close>: the position estimated from the absolute time, and the
  unlocking on a jump of more than 20 words. Step 3: the search range.
\<close>

definition estimatedPosition :: "LyricsAlignment \<Rightarrow> real \<Rightarrow> int" where
  "estimatedPosition st absoluteTime =
     (if absoluteTime > 0 then trunc_int (absoluteTime * WORDS_PER_SECOND)
      else currentPosition st)"

definition unlockOnJump :: "LyricsAlignment \<Rightarrow> real \<Rightarrow> LyricsAlignment" where
  "unlockOnJump st absoluteTime =
     (if absoluteTime > 0
         \<and> \<bar>estimatedPosition st absoluteTime - currentPosition st\<bar> > 20 \<and> locked st
      then st\<lparr>locked := False, consecutiveMatches := 0\<rparr> else st)"

definition searchRange :: "LyricsAlignment \<Rightarrow> int \<Rightarrow> int \<times> int" where
  "searchRange st est =
     (let n = int (length (preprocessedLyrics st))
      in if \<not> locked st \<or> currentPosition st = 0
         then (max 0 (est - 30), min n (est + 30))
         else (currentPosition st, min n (currentPosition st + 10)))"

definition alignChunk ::
  "LyricsAlignment \<Rightarrow> WordSegment list \<Rightarrow> real \<Rightarrow> WordSegment list \<times> LyricsAlignment" where
  "alignChunk st transcribedWords absoluteTime =
     (if \<not> initialized st \<or> preprocessedLyrics st = [] then (transcribedWords, st)
      else if transcribedWords = [] then (transcribedWords, st)
      else if isNonLyricalContent transcribedWords then (transcribedWords, st)
      else
        let est = estimatedPosition st absoluteTime;
            st1 = unlockOnJump st absoluteTime;
            (searchStart, searchEnd) = searchRange st1 est;
            (matchPosition, matchScore) =
               findBestStartPosition st1 transcribedWords searchStart searchEnd
        in if matchPosition < 0
           then (transcribedWords, st1\<lparr>locked := False, consecutiveMatches := 0\<rparr>)
           else if matchScore \<ge> LOCK_THRESHOLD
           then let st2 = st1\<lparr>consecutiveMatches := consecutiveMatches st1 + 1\<rparr>;
                    st3 = (if consecutiveMatches st2 \<ge> LOCK_REQUIRED_MATCHES
                           then st2\<lparr>locked := True\<rparr> else st2);
                    wordCount = min (int (length transcribedWords))
                                    (int (length (preprocessedLyrics st3)) - matchPosition);
                    aligned = mapTimestamps st3 matchPosition wordCount transcribedWords
                in (aligned, st3\<lparr>currentPosition := matchPosition + wordCount\<rparr>)
           else if matchScore \<ge> TEXT_MATCH_THRESHOLD
           then let st2 = st1\<lparr>locked := False, consecutiveMatches := 0\<rparr>;
                    wordCount = min (int (length transcribedWords))
                                    (int (length (preprocessedLyrics st2)) - matchPosition);
                    aligned = mapTimestamps st2 matchPosition wordCount transcribedWords
                in (aligned, st2\<lparr>currentPosition := matchPosition + wordCount\<rparr>)
           else (transcribedWords, st1\<lparr>locked := False, consecutiveMatches := 0\<rparr>))"

subsection \<open>predictNextWords\<close>

definition predictNextWords :: "LyricsAlignment \<Rightarrow> real \<Rightarrow> WordSegment list \<times> LyricsAlignment" where
  "predictNextWords st duration =
     (if \<not> isReady st \<or> currentPosition st \<ge> int (length (preprocessedLyrics st))
      then ([], st)
      else let numWords = min (cast_int (round_double (duration * WORDS_PER_SECOND)))
                              (int (length (preprocessedLyrics st)) - currentPosition st);
               wordDuration = round_double (duration / real_of_int numWords);
               predictedWords =
                 map (\<lambda>i. let lyricsWord = preprocessedLyrics st ! nat (currentPosition st + i);
                              startTime = round_double (real_of_int i * wordDuration);
                              endTime = round_double (startTime + wordDuration)
                          in \<lparr>word = lword lyricsWord, start = startTime,
                              end_time = endTime, confidence = 5 / 10\<rparr>)
                     [0 .. numWords - 1]
           in (predictedWords, st\<lparr>currentPosition := currentPosition st + numWords\<rparr>))"

text \<open>The bounds of the cursor: \<open>0 \<le> currentPosition \<le> getTotalWords\<close>.\<close>

definition cursor_in_bounds :: "LyricsAlignment \<Rightarrow> bool" where
  "cursor_in_bounds st = (0 \<le> currentPosition st \<and> currentPosition st \<le> getTotalWords st)"

section \<open>AudioEngine.cpp: the worker's use of the aligner\<close>

text \<open>
  \<^verbatim>\<open>processTranscription\<close>, the block under
  \<^verbatim>\<open>if (useLyricsAlignment && !songLyrics.empty())\<close>: align the chunk, fall back to the
  raw words when the aligner returns none, and predict the next words when the
  recognizer heard nothing and the aligner is ready. The result is
  \<^verbatim>\<open>finalWords\<close>, the aligner and \<^verbatim>\<open>songElapsedTime\<close>.
\<close>

definition alignOrPredict ::
  "LyricsAlignment \<Rightarrow> WordSegment list \<Rightarrow> real \<Rightarrow> real
   \<Rightarrow> WordSegment list \<times> LyricsAlignment \<times> real" where
  "alignOrPredict st transcribedWords songElapsedTime chunkSeconds =
     (let (finalWords, st1) = alignChunk st transcribedWords songElapsedTime;
          songElapsedTime1 = (if transcribedWords \<noteq> [] then songElapsedTime + chunkSeconds
                              else songElapsedTime);
          finalWords1 = (if finalWords = [] \<and> transcribedWords \<noteq> [] then transcribedWords
                         else finalWords)
      in if finalWords1 = [] \<and> transcribedWords = [] \<and> isReady st1
         then (case predictNextWords st1 chunkSeconds of
                 (predicted, st2) \<Rightarrow> (predicted, st2, songElapsedTime1))
         else (finalWords1, st1, songElapsedTime1))"

subsection \<open>Example inputs\<close>

text \<open>
  The lyrics and chunks of the spec's scenarios: the nine-word sentence with three
  two-word chunks, the aligner after each chunk (the worker passes the elapsed times 0,
  2 and 4 with its chunks of 2 seconds), and an aligner locked at cursor 10 of twenty
  words.
\<close>

definition fox_aligner :: LyricsAlignment where
  "fox_aligner = setLyrics LyricsAlignment_new ''the quick brown fox jumps over the lazy dog''"

definition two_words :: "string \<Rightarrow> string \<Rightarrow> WordSegment list" where
  "two_words a b =
     [\<lparr>word = a, start = 0, end_time = 1, confidence = 1\<rparr>,
      \<lparr>word = b, start = 1, end_time = 2, confidence = 8 / 10\<rparr>]"

definition fox_after1 :: LyricsAlignment where
  "fox_after1 = snd (alignChunk fox_aligner (two_words ''the'' ''quick'') 0)"

definition fox_after2 :: LyricsAlignment where
  "fox_after2 = snd (alignChunk fox_after1 (two_words ''brown'' ''fox'') 2)"




definition twenty_aligner :: LyricsAlignment where
  "twenty_aligner =
     (setLyrics LyricsAlignment_new
        ''w0 w1 w2 w3 w4 w5 w6 w7 w8 w9 w10 w11 w12 w13 w14 w15 w16 w17 w18 w19'')
     \<lparr>currentPosition := 10, locked := True\<rparr>"

text \<open>The preprocessed lyrics of the two aligners, written out.\<close>

definition fox_lyrics :: "LyricsWord list" where
  "fox_lyrics =
    [\<lparr>index = 0, lword = ''the'', soundex = ''T000'', isOptional = False\<rparr>,
     \<lparr>index = 1, lword = ''quick'', soundex = ''Q200'', isOptional = False\<rparr>,
     \<lparr>index = 2, lword = ''brown'', soundex = ''B650'', isOptional = False\<rparr>,
     \<lparr>index = 3, lword = ''fox'', soundex = ''F200'', isOptional = False\<rparr>,
     \<lparr>index = 4, lword = ''jumps'', soundex = ''J512'', isOptional = False\<rparr>,
     \<lparr>index = 5, lword = ''over'', soundex = ''O160'', isOptional = False\<rparr>,
     \<lparr>index = 6, lword = ''the'', soundex = ''T000'', isOptional = False\<rparr>,
     \<lparr>index = 7, lword = ''lazy'', soundex = ''L200'', isOptional = False\<rparr>,
     \<lparr>index = 8, lword = ''dog'', soundex = ''D200'', isOptional = False\<rparr>]"

definition twenty_lyrics :: "LyricsWord list" where
  "twenty_lyrics =
    [\<lparr>index = 0, lword = ''w0'', soundex = ''W000'', isOptional = False\<rparr>,
     \<lparr>index = 1, lword = ''w1'', soundex = ''W000'', isOptional = False\<rparr>,
     \<lparr>index = 2, lword = ''w2'', soundex = ''W000'', isOptional = False\<rparr>,
     \<lparr>index = 3, lword = ''w3'', soundex = ''W000'', isOptional = False\<rparr>,
     \<lparr>index = 4, lword = ''w4'', soundex = ''W000'', isOptional = False\<rparr>,
     \<lparr>index = 5, lword = ''w5'', soundex = ''W000'', isOptional = False\<rparr>,
     \<lparr>index = 6, lword = ''w6'', soundex = ''W000'', isOptional = False\<rparr>,
     \<lparr>index = 7, lword = ''w7'', soundex = ''W000'', isOptional = False\<rparr>,
     \<lparr>index = 8, lword = ''w8'', soundex = ''W000'', isOptional = False\<rparr>,
     \<lparr>index = 9, lword = ''w9'', soundex = ''W000'', isOptional = False\<rparr>,
     \<lparr>index = 10, lword = ''w10'', soundex = ''W000'', isOptional = False\<rparr>,
     \<lparr>index = 11, lword = ''w11'', soundex = ''W000'', isOptional = False\<rparr>,
     \<lparr>index = 12, lword = ''w12'', soundex = ''W000'', isOptional = False\<rparr>,
     \<lparr>index = 13, lword = ''w13'', soundex = ''W000'', isOptional = False\<rparr>,
     \<lparr>index = 14, lword = ''w14'', soundex = ''W000'', isOptional = False\<rparr>,
     \<lparr>index = 15, lword = ''w15'', soundex = ''W000'', isOptional = False\<rparr>,
     \<lparr>index = 16, lword = ''w16'', soundex = ''W000'', isOptional = False\<rparr>,
     \<lparr>index = 17, lword = ''w17'', soundex = ''W000'', isOptional = False\<rparr>,
     \<lparr>index = 18, lword = ''w18'', soundex = ''W000'', isOptional = False\<rparr>,
     \<lparr>index = 19, lword = ''w19'', soundex = ''W000'', isOptional = False\<rparr>]"

section \<open>AudioEngine.cpp: the audio callback, the delay line and the rewrites\<close>

text \<open>
  The members of \<^verbatim>\<open>AudioEngine\<close> that the callback and the worker's censoring read or
  write, with the counters of its \<^verbatim>\<open>QualityAnalyzer\<close>. \<open>wasPaused\<close> is the
  \<^verbatim>\<open>static bool wasPaused\<close> of the callback. Samples are real numbers, positions and
  counts unbounded integers; the delay buffer is the list of its two channels. Every
  index into a vector below lies within it: ring positions are taken modulo
  \<open>delayBufferSize\<close>, which is the length of both channels. The sizes of the buffers,
  the length of a chunk in samples and the gap in seconds are computed exactly; for the
  chunk length of 2.0 and the initial delay of 3.0 seconds of \<^verbatim>\<open>AudioEngine.h\<close>, which
  the program never changes, the code's products are whole numbers that a double holds,
  and its quotient of a gap by the sample rate compares with the thresholds 1.0, 2.5 and
  3.0 as the exact quotient does. The positions of a censored word are computed as the
  code does, each operation rounded to a double and each cast to a 32-bit \<^verbatim>\<open>int\<close>. The source's \<^verbatim>\<open>%\<close> is applied to
  operands that are not negative, where it agrees with \<open>mod\<close>, as long as a chunk is not
  longer than the delay buffer. \<open>workerCaptureTime\<close> is the local variable
  \<^verbatim>\<open>captureTime\<close> of the worker's \<^verbatim>\<open>whisperThreadFunction\<close>. The answers of the two services the callback calls,
  \<^verbatim>\<open>identifySong\<close> and \<^verbatim>\<open>fetchLyrics\<close> of its \<^verbatim>\<open>SongRecognition\<close> member, are functions
  held by that member; the time they take, during which the callback does not return, is
  not modelled, nor is the wait for \<^verbatim>\<open>bufferMutex\<close>. The console output and the call of
  \<^verbatim>\<open>songInfoCallback\<close> are left out: they touch no member.
\<close>

datatype CensorMode = Reverse | Mute

record CensorshipEvent =
  ev_word :: string
  ev_timestamp :: real
  ev_wasCensored :: bool
  ev_mode :: string

record SongInfo =
  song_artist :: string
  song_title :: string
  song_album :: string
  song_confidence :: real
  song_lyrics :: string
  song_identified :: bool

record SongRecognition =
  identifySong :: "real list \<Rightarrow> int \<Rightarrow> SongInfo"
  fetchLyrics :: "string \<Rightarrow> string \<Rightarrow> string"

record AudioEngine =
  isRunning :: bool
  sampleRate :: int
  chunkSeconds :: real
  initialDelaySeconds :: real
  audioBuffer :: "real list"
  processingBuffer :: "real list"
  bufferWritePos :: int
  transcriptionInterval :: int
  hasNewBuffer :: bool
  bufferCaptureTime :: real
  wasWaiting :: bool
  debugCounter :: int
  delayBuffer :: "real list list"
  delayBufferSize :: int
  delayReadPos :: int
  delayWritePos :: int
  playbackStarted :: bool
  wasPaused :: bool
  bufferUnderrun :: bool
  streamTime :: real
  lastUnderrunWarningTime :: real
  currentCensorMode :: CensorMode
  bufferUnderrunCount :: int
  totalWordsDetected :: int
  totalWordsCensored :: int
  totalWordsSkipped :: int
  multiWordDetections :: int
  censorshipHistory :: "CensorshipEvent list"
  currentInputLevel :: real
  songRecognition :: SongRecognition
  songIdentificationAttempted :: bool
  recognitionBuffer :: "real list"
  songIdentified :: bool
  currentSong :: SongInfo
  workerCaptureTime :: real

subsection \<open>getCurrentBufferSize\<close>

definition currentGap :: "AudioEngine \<Rightarrow> int" where
  "currentGap st =
     (delayWritePos st - delayReadPos st + delayBufferSize st) mod delayBufferSize st"

definition getCurrentBufferSize :: "AudioEngine \<Rightarrow> real" where
  "getCurrentBufferSize st =
     (if \<not> isRunning st then 0
      else real_of_int (currentGap st) / real_of_int (sampleRate st))"

subsection \<open>The callback: accumulating the mono downmix\<close>

text \<open>
  The input of one callback is \<^verbatim>\<open>inputChannelData\<close>, a list of channels of \<open>numSamples\<close>
  samples each. \<open>monoSamples\<close> is the downmix the first loop computes sample by sample,
  \<open>accumulate\<close> what it does with each of them.
\<close>

definition monoSamples :: "real list list \<Rightarrow> nat \<Rightarrow> real list" where
  "monoSamples inputChannelData numSamples =
     map (\<lambda>i. if length inputChannelData > 1
              then (inputChannelData ! 0 ! i + inputChannelData ! 1 ! i) * (5 / 10)
              else inputChannelData ! 0 ! i)
         [0 ..< numSamples]"

fun accumulate :: "real list \<Rightarrow> int \<Rightarrow> real list \<Rightarrow> real list \<times> int" where
  "accumulate buf pos [] = (buf, pos)"
| "accumulate buf pos (monoSample # rest) =
     (if 0 \<le> pos \<and> pos < int (length buf)
      then accumulate (buf[nat pos := monoSample]) (pos + 1) rest
      else accumulate buf pos rest)"

text \<open>
  The same loop appends each mono sample to the song-recognition buffer, until it holds
  ten seconds, as long as no identification has been attempted.
\<close>

definition recognitionLimit :: "AudioEngine \<Rightarrow> nat" where
  "recognitionLimit st = nat (trunc_int (real_of_int (sampleRate st) * 10))"

definition pushRecognition :: "real list \<Rightarrow> nat \<Rightarrow> real list \<Rightarrow> real list" where
  "pushRecognition buf limit monos =
     fold (\<lambda>monoSample b. if length b < limit then b @ [monoSample] else b) monos buf"

definition accumulateInput :: "AudioEngine \<Rightarrow> real list list \<Rightarrow> nat \<Rightarrow> AudioEngine" where
  "accumulateInput st inputChannelData numSamples =
     (if length inputChannelData > 0
      then (case accumulate (audioBuffer st) (bufferWritePos st)
                   (monoSamples inputChannelData numSamples) of
              (buf, pos) \<Rightarrow>
                st\<lparr>audioBuffer := buf, bufferWritePos := pos,
                   recognitionBuffer :=
                     (if \<not> songIdentificationAttempted st
                      then pushRecognition (recognitionBuffer st) (recognitionLimit st)
                             (monoSamples inputChannelData numSamples)
                      else recognitionBuffer st)\<rparr>)
      else st)"

subsection \<open>The callback: the input level and the song identification\<close>

definition measureInputLevel :: "AudioEngine \<Rightarrow> real list list \<Rightarrow> nat \<Rightarrow> AudioEngine" where
  "measureInputLevel st inputChannelData numSamples =
     (if length inputChannelData > 0
      then st\<lparr>currentInputLevel :=
                sqrt (sum_list (map (\<lambda>i. inputChannelData ! 0 ! i * inputChannelData ! 0 ! i)
                                    [0 ..< numSamples])
                      / real numSamples)\<rparr>
      else st)"

text \<open>
  Once ten seconds are in the recognition buffer the callback itself asks the service for
  the song and, when it is identified without lyrics, for its lyrics.
\<close>

definition identifySongAttempt :: "AudioEngine \<Rightarrow> AudioEngine" where
  "identifySongAttempt st =
     (if \<not> songIdentificationAttempted st
         \<and> length (recognitionBuffer st) \<ge> recognitionLimit st
      then let song = identifySong (songRecognition st) (recognitionBuffer st) (sampleRate st);
               song1 = (if song_identified song \<and> song_lyrics song = []
                        then song\<lparr>song_lyrics :=
                               fetchLyrics (songRecognition st) (song_artist song)
                                 (song_title song)\<rparr>
                        else song)
           in st\<lparr>songIdentificationAttempted := True,
                 currentSong := song1,
                 songIdentified := (if song_identified song then True else songIdentified st),
                 recognitionBuffer := []\<rparr>
      else st)"

subsection \<open>The callback: handing a chunk to the worker\<close>

definition handoff :: "AudioEngine \<Rightarrow> nat \<Rightarrow> AudioEngine" where
  "handoff st numSamples =
     (let st1 = st\<lparr>transcriptionInterval := transcriptionInterval st + int numSamples\<rparr>;
          chunkLength = real_of_int (sampleRate st1) * chunkSeconds st1
      in if real_of_int (transcriptionInterval st1) \<ge> chunkLength \<and> \<not> hasNewBuffer st1
         then let samplesToProcess = nat (min (bufferWritePos st1) (trunc_int chunkLength))
              in st1\<lparr>processingBuffer :=
                        take samplesToProcess (audioBuffer st1)
                        @ drop samplesToProcess (processingBuffer st1),
                      bufferCaptureTime := real_of_int (delayWritePos st1),
                      wasWaiting := False,
                      hasNewBuffer := True,
                      bufferWritePos := 0,
                      transcriptionInterval := 0\<rparr>
         else if real_of_int (transcriptionInterval st1) \<ge> chunkLength \<and> hasNewBuffer st1
         then (if (debugCounter st1 + 1) mod 100 = 0
               then st1\<lparr>debugCounter := debugCounter st1 + 1, wasWaiting := True\<rparr>
               else st1\<lparr>debugCounter := debugCounter st1 + 1\<rparr>)
         else st1)"

subsection \<open>The callback: the buffer-health monitor\<close>

definition monitorBufferHealth :: "AudioEngine \<Rightarrow> AudioEngine" where
  "monitorBufferHealth st =
     (let currentBufferSize = getCurrentBufferSize st
      in if playbackStarted st
         then let minBufferSize = chunkSeconds st + 5 / 10;
                  recoveryBufferSize = initialDelaySeconds st
              in if currentBufferSize < minBufferSize \<and> \<not> bufferUnderrun st
                 then st\<lparr>bufferUnderrun := True,
                         lastUnderrunWarningTime := streamTime st,
                         bufferUnderrunCount := bufferUnderrunCount st + 1\<rparr>
                 else if currentBufferSize > recoveryBufferSize \<and> bufferUnderrun st
                 then st\<lparr>bufferUnderrun := False\<rparr>
                 else st
         else if bufferUnderrun st \<and> streamTime st - lastUnderrunWarningTime st > 5
         then st\<lparr>lastUnderrunWarningTime := streamTime st\<rparr>
         else st)"

subsection \<open>The callback: the delay line\<close>

text \<open>
  One pass of the loop over \<open>i\<close>: \<open>frame\<close> holds \<^verbatim>\<open>inputChannelData[ch][i]\<close> for each input
  channel, the result holds \<^verbatim>\<open>outputChannelData[ch][i]\<close> for each output channel.
\<close>

definition writeFrame :: "real list list \<Rightarrow> int \<Rightarrow> real list \<Rightarrow> real list list" where
  "writeFrame db w frame =
     fold (\<lambda>ch d. d[ch := (d ! ch)[nat w := frame ! ch]]) [0 ..< min 2 (length frame)] db"

definition delayFrame :: "AudioEngine \<Rightarrow> real list \<Rightarrow> nat \<Rightarrow> real list \<times> AudioEngine" where
  "delayFrame st frame numOutputChannels =
     (let db = writeFrame (delayBuffer st) (delayWritePos st) frame;
          bufferSeconds = real_of_int (currentGap st) / real_of_int (sampleRate st);
          paused =
            (if \<not> playbackStarted st then wasPaused st
             else if bufferSeconds < initialDelaySeconds st - 2 \<and> \<not> wasPaused st then True
             else if bufferSeconds \<ge> initialDelaySeconds st \<and> wasPaused st then False
             else wasPaused st);
          canPlay =
            (if \<not> playbackStarted st then bufferSeconds \<ge> initialDelaySeconds st
             else \<not> paused);
          out = map (\<lambda>ch. if canPlay then db ! (min ch 1) ! nat (delayReadPos st) else 0)
                    [0 ..< numOutputChannels]
      in (out,
          st\<lparr>delayBuffer := db,
             playbackStarted := (playbackStarted st \<or> canPlay),
             wasPaused := paused,
             delayWritePos := (delayWritePos st + 1) mod delayBufferSize st,
             delayReadPos := (if canPlay then (delayReadPos st + 1) mod delayBufferSize st
                              else delayReadPos st)\<rparr>))"

fun delayLoop :: "AudioEngine \<Rightarrow> real list list \<Rightarrow> nat \<Rightarrow> real list list \<times> AudioEngine" where
  "delayLoop st [] numOutputChannels = ([], st)"
| "delayLoop st (frame # frames) numOutputChannels =
     (case delayFrame st frame numOutputChannels of
        (out, st1) \<Rightarrow> (case delayLoop st1 frames numOutputChannels of
                         (outs, st2) \<Rightarrow> (out # outs, st2)))"

definition framesOf :: "real list list \<Rightarrow> nat \<Rightarrow> real list list" where
  "framesOf inputChannelData numSamples =
     map (\<lambda>i. map (\<lambda>ch. inputChannelData ! ch ! i) [0 ..< length inputChannelData])
         [0 ..< numSamples]"

text \<open>
  The whole callback; its output is listed frame by frame. \<open>beforeDelayLoop\<close> is the
  callback up to its loop over the delay line.
\<close>

definition beforeDelayLoop :: "AudioEngine \<Rightarrow> real list list \<Rightarrow> nat \<Rightarrow> AudioEngine" where
  "beforeDelayLoop st inputChannelData numSamples =
     (let st0 = measureInputLevel st inputChannelData numSamples;
          st1 = identifySongAttempt (accumulateInput st0 inputChannelData numSamples);
          st2 = handoff st1 numSamples
      in monitorBufferHealth st2)"

definition audioDeviceIOCallbackWithContext ::
  "AudioEngine \<Rightarrow> real list list \<Rightarrow> nat \<Rightarrow> nat \<Rightarrow> real list list \<times> AudioEngine" where
  "audioDeviceIOCallbackWithContext st inputChannelData numOutputChannels numSamples =
     (case delayLoop (beforeDelayLoop st inputChannelData numSamples)
             (framesOf inputChannelData numSamples) numOutputChannels of
        (outs, st4) \<Rightarrow>
          (outs, st4\<lparr>streamTime := streamTime st4
                       + real numSamples / real_of_int (sampleRate st4)\<rparr>))"

subsection \<open>The worker: censoring a detected word\<close>

definition recordCensorshipEvent ::
  "AudioEngine \<Rightarrow> string \<Rightarrow> real \<Rightarrow> bool \<Rightarrow> string \<Rightarrow> bool \<Rightarrow> AudioEngine" where
  "recordCensorshipEvent st w timestamp wasCensored mode isMultiWord =
     (let h = censorshipHistory st
              @ [\<lparr>ev_word = w, ev_timestamp = timestamp, ev_wasCensored = wasCensored,
                  ev_mode = mode\<rparr>];
          h = (if length h > 1000 then tl h else h)
      in st\<lparr>censorshipHistory := h,
            totalWordsDetected := totalWordsDetected st + 1,
            totalWordsCensored := (if wasCensored then totalWordsCensored st + 1
                                   else totalWordsCensored st),
            totalWordsSkipped := (if wasCensored then totalWordsSkipped st
                                  else totalWordsSkipped st + 1),
            multiWordDetections := (if isMultiWord then multiWordDetections st + 1
                                    else multiWordDetections st)\<rparr>)"

text \<open>
  The positions of a word in the delay buffer: \<open>(chunkStartPos, startSample, endSample)\<close>
  from the capture time of the chunk and the word's padded times.
\<close>

definition censorRegion :: "AudioEngine \<Rightarrow> real \<Rightarrow> real \<Rightarrow> real \<Rightarrow> int \<times> int \<times> int" where
  "censorRegion st captureTime profanityStart profanityEnd =
     (let chunkEndPos = cast_int captureTime;
          chunkStartPos =
            (chunkEndPos
             - cast_int (round_double (real_of_int (sampleRate st) * chunkSeconds st))
             + delayBufferSize st) mod delayBufferSize st;
          paddingBefore = round_double (4 / 10);
          paddingAfter = round_double (1 / 10);
          startSample = cast_int (round_double (round_double (profanityStart - paddingBefore)
                                                * real_of_int (sampleRate st)));
          endSample = cast_int (round_double (round_double (profanityEnd + paddingAfter)
                                              * real_of_int (sampleRate st)));
          maxSample = cast_int (round_double (real_of_int (sampleRate st) * chunkSeconds st));
          startSample = max 0 (min startSample maxSample);
          endSample = max startSample (min endSample maxSample)
      in (chunkStartPos, startSample, endSample))"

text \<open>The two rewrites, each over both channels of the delay buffer of size \<open>N\<close>.\<close>

definition muteChannel :: "int \<Rightarrow> int \<Rightarrow> int \<Rightarrow> int \<Rightarrow> real list \<Rightarrow> real list" where
  "muteChannel N chunkStartPos startSample endSample channel =
     fold (\<lambda>i c. c[nat ((chunkStartPos + i) mod N) := 0]) [startSample .. endSample - 1] channel"

definition reverseGain :: "int \<Rightarrow> int \<Rightarrow> int \<Rightarrow> real" where
  "reverseGain numSamplesToCensor fadeSamples i =
     (if i < fadeSamples
      then real_of_int i / real_of_int fadeSamples * (5 / 10)
      else if i \<ge> numSamplesToCensor - fadeSamples
      then real_of_int (numSamplesToCensor - i) / real_of_int fadeSamples * (5 / 10)
      else 5 / 10)"

definition reverseChannel :: "int \<Rightarrow> int \<Rightarrow> int \<Rightarrow> int \<Rightarrow> real list \<Rightarrow> real list" where
  "reverseChannel N chunkStartPos startSample endSample channel =
     (let numSamplesToCensor = endSample - startSample;
          fadeSamples = min 480 (numSamplesToCensor div 4);
          tempBuffer = map (\<lambda>i. channel ! nat ((chunkStartPos + startSample + i) mod N))
                           [0 .. numSamplesToCensor - 1];
          tempBuffer = rev tempBuffer
      in fold (\<lambda>i c. c[nat ((chunkStartPos + startSample + i) mod N) :=
                         tempBuffer ! nat i * reverseGain numSamplesToCensor fadeSamples i])
              [0 .. numSamplesToCensor - 1] channel)"

definition applyCensor :: "AudioEngine \<Rightarrow> int \<Rightarrow> int \<Rightarrow> int \<Rightarrow> AudioEngine" where
  "applyCensor st chunkStartPos startSample endSample =
     (case currentCensorMode st of
        Mute \<Rightarrow>
          st\<lparr>delayBuffer :=
               map (muteChannel (delayBufferSize st) chunkStartPos startSample endSample)
                   (take 2 (delayBuffer st)) @ drop 2 (delayBuffer st)\<rparr>
      | Reverse \<Rightarrow>
          st\<lparr>delayBuffer :=
               map (reverseChannel (delayBufferSize st) chunkStartPos startSample endSample)
                   (take 2 (delayBuffer st)) @ drop 2 (delayBuffer st)\<rparr>)"

text \<open>
  \<^verbatim>\<open>processTranscription\<close> from \<^verbatim>\<open>if (foundProfanity)\<close> on, for one detected word or
  pair of words.
\<close>

definition censorModeName :: "CensorMode \<Rightarrow> string" where
  "censorModeName m = (case m of Reverse \<Rightarrow> ''REVERSE'' | Mute \<Rightarrow> ''MUTE'')"

definition processProfanity ::
  "AudioEngine \<Rightarrow> string \<Rightarrow> real \<Rightarrow> real \<Rightarrow> real \<Rightarrow> bool \<Rightarrow> AudioEngine" where
  "processProfanity st profanityText captureTime profanityStart profanityEnd isMultiWord =
     (if bufferUnderrun st
      then recordCensorshipEvent st profanityText profanityStart False ''SKIPPED'' isMultiWord
      else let st1 = recordCensorshipEvent st profanityText profanityStart True
                       (censorModeName (currentCensorMode st)) isMultiWord
           in case censorRegion st1 captureTime profanityStart profanityEnd of
                (chunkStartPos, startSample, endSample) \<Rightarrow>
                  applyCensor st1 chunkStartPos startSample endSample)"

subsection \<open>start and audioDeviceAboutToStart\<close>

text \<open>
  The engine as \<^verbatim>\<open>start\<close> and \<^verbatim>\<open>audioDeviceAboutToStart\<close> leave it, for a device of the
  given sample rate and the given configuration and mode: the buffers allocated and
  zeroed, the positions and flags cleared. \<open>recognition\<close> is the song-recognition service;
  \<open>mediaInfo\<close> tells whether Windows Media Control could be initialised, in which case
  \<^verbatim>\<open>start\<close> switches the identification by fingerprint off.
\<close>

definition no_song :: SongInfo where
  "no_song = \<lparr>song_artist = [], song_title = [], song_album = [], song_confidence = 0,
              song_lyrics = [], song_identified = False\<rparr>"

definition startedEngine ::
  "int \<Rightarrow> real \<Rightarrow> real \<Rightarrow> CensorMode \<Rightarrow> SongRecognition \<Rightarrow> bool \<Rightarrow> AudioEngine" where
  "startedEngine rate chunk initialDelay mode recognition mediaInfo =
     \<lparr>isRunning = True, sampleRate = rate, chunkSeconds = chunk,
      initialDelaySeconds = initialDelay,
      audioBuffer = replicate (nat (trunc_int (real_of_int rate * chunk))) 0,
      processingBuffer = replicate (nat (trunc_int (real_of_int rate * chunk))) 0,
      bufferWritePos = 0, transcriptionInterval = 0, hasNewBuffer = False,
      bufferCaptureTime = 0, wasWaiting = False, debugCounter = 0,
      delayBuffer = replicate 2
         (replicate (nat (trunc_int (real_of_int rate * (initialDelay + 10)))) 0),
      delayBufferSize = trunc_int (real_of_int rate * (initialDelay + 10)),
      delayReadPos = 0, delayWritePos = 0, playbackStarted = False, wasPaused = False,
      bufferUnderrun = False, streamTime = 0, lastUnderrunWarningTime = 0,
      currentCensorMode = mode, bufferUnderrunCount = 0, totalWordsDetected = 0,
      totalWordsCensored = 0, totalWordsSkipped = 0, multiWordDetections = 0,
      censorshipHistory = [],
      currentInputLevel = 0, songRecognition = recognition,
      songIdentificationAttempted = mediaInfo, recognitionBuffer = [],
      songIdentified = mediaInfo, currentSong = no_song, workerCaptureTime = 0\<rparr>"

subsection \<open>Example engines\<close>

text \<open>
  A service that identifies no song. The engine at 48 kHz with the 2-second chunks and
  the 3-second delay of \<^verbatim>\<open>AudioEngine.h\<close>, with a chunk waiting for the worker and the
  accumulator one sample short of full, and the same with the accumulator full.
\<close>

definition no_recognition :: SongRecognition where
  "no_recognition = \<lparr>identifySong = (\<lambda>buffer rate. no_song),
                     fetchLyrics = (\<lambda>artist title. [])\<rparr>"

definition busy_engine :: AudioEngine where
  "busy_engine =
     (startedEngine 48000 2 3 Mute no_recognition True)
       \<lparr>bufferWritePos := 95999, transcriptionInterval := 95999, hasNewBuffer := True\<rparr>"

definition busy_full_engine :: AudioEngine where
  "busy_full_engine =
     (startedEngine 48000 2 3 Mute no_recognition True)
       \<lparr>bufferWritePos := 96000, transcriptionInterval := 96000, hasNewBuffer := True\<rparr>"

section \<open>CensorshipEngine.h: muteSamples\<close>

text \<open>
  A \<^verbatim>\<open>juce::AudioBuffer<float>\<close> is the list of its channels, each of
  \<^verbatim>\<open>getNumSamples()\<close> samples. The fades test every index against the buffer before
  they write; the loop that zeroes the middle stops at the end of the buffer and does not
  test for a negative index, where the source writes before the buffer; the model
  leaves such an index alone. \<^verbatim>\<open>calculateFadeSamples\<close> is 5 ms of samples, computed in
  \<^verbatim>\<open>float\<close> in the source.
\<close>

definition calculateFadeSamples :: "int \<Rightarrow> int" where
  "calculateFadeSamples sample_rate = trunc_int (real_of_int sample_rate * 5 / 1000)"

definition applyFadeIn_channel :: "int \<Rightarrow> int \<Rightarrow> real list \<Rightarrow> real list" where
  "applyFadeIn_channel start_idx len channel_data =
     fold (\<lambda>i c. let idx = start_idx + i
                 in if 0 \<le> idx \<and> idx < int (length c)
                    then c[nat idx := c ! nat idx * (real_of_int i / real_of_int len)]
                    else c)
          [0 .. len - 1] channel_data"

definition applyFadeOut_channel :: "int \<Rightarrow> int \<Rightarrow> real list \<Rightarrow> real list" where
  "applyFadeOut_channel start_idx len channel_data =
     fold (\<lambda>i c. let idx = start_idx + i
                 in if 0 \<le> idx \<and> idx < int (length c)
                    then c[nat idx := c ! nat idx * (1 - real_of_int i / real_of_int len)]
                    else c)
          [0 .. len - 1] channel_data"

definition applyFadeIn :: "real list list \<Rightarrow> int \<Rightarrow> int \<Rightarrow> real list list" where
  "applyFadeIn buffer start_idx len = map (applyFadeIn_channel start_idx len) buffer"

definition applyFadeOut :: "real list list \<Rightarrow> int \<Rightarrow> int \<Rightarrow> real list list" where
  "applyFadeOut buffer start_idx len = map (applyFadeOut_channel start_idx len) buffer"

definition zeroMiddle_channel :: "int \<Rightarrow> int \<Rightarrow> real list \<Rightarrow> real list" where
  "zeroMiddle_channel zero_start zero_end channel_data =
     fold (\<lambda>i c. if 0 \<le> i then c[nat i := 0] else c)
          (takeWhile (\<lambda>i. i < int (length channel_data)) [zero_start .. zero_end - 1])
          channel_data"

definition muteSamples :: "real list list \<Rightarrow> int \<Rightarrow> int \<Rightarrow> int \<Rightarrow> real list list" where
  "muteSamples buffer start_sample end_sample sample_rate =
     (let len = end_sample - start_sample
      in if len \<le> 0 then buffer
         else let fade_samples = calculateFadeSamples sample_rate;
                  b1 = applyFadeOut buffer start_sample fade_samples;
                  zero_start = start_sample + fade_samples;
                  zero_end = end_sample - fade_samples;
                  b2 = (if zero_end > zero_start
                        then map (zeroMiddle_channel zero_start zero_end) b1 else b1)
              in applyFadeIn b2 (end_sample - fade_samples) fade_samples)"

section \<open>TimestampRefiner.cpp: the energy-based refiner\<close>

text \<open>
  The audio is the list of its samples; \<^verbatim>\<open>float\<close> and \<^verbatim>\<open>double\<close> are real numbers. The
  three loops with a stride are recursive functions of the loop variable.
\<close>

definition ENERGY_THRESHOLD :: real where "ENERGY_THRESHOLD = 1 / 1000"
definition ZC_THRESHOLD :: real where "ZC_THRESHOLD = 1 / 10"
definition WINDOW_SIZE :: int where "WINDOW_SIZE = 480"
definition SEARCH_RADIUS :: int where "SEARCH_RADIUS = 38400"
definition MIN_WORD_DURATION :: real where "MIN_WORD_DURATION = 5 / 100"
definition MAX_WORD_DURATION :: real where "MAX_WORD_DURATION = 2"
definition INT_MAX :: int where "INT_MAX = 2147483647"

definition sumSquares :: "real list \<Rightarrow> int \<Rightarrow> int \<Rightarrow> real" where
  "sumSquares audio start_idx len =
     sum_list (map (\<lambda>sample. sample * sample) (take (nat len) (drop (nat start_idx) audio)))"

definition calculateEnergy :: "real list \<Rightarrow> int \<Rightarrow> int \<Rightarrow> real" where
  "calculateEnergy audio start_idx len =
     (if start_idx < 0 \<or> start_idx + len > int (length audio) then 0
      else sqrt (sumSquares audio start_idx len / real_of_int len))"

definition countCrossings :: "real list \<Rightarrow> int \<Rightarrow> int \<Rightarrow> int" where
  "countCrossings audio start_idx len =
     int (length (filter (\<lambda>i. (audio ! nat i \<ge> 0 \<and> audio ! nat (i - 1) < 0)
                              \<or> (audio ! nat i < 0 \<and> audio ! nat (i - 1) \<ge> 0))
                         [start_idx + 1 .. start_idx + len - 1]))"

definition calculateZeroCrossing :: "real list \<Rightarrow> int \<Rightarrow> int \<Rightarrow> real" where
  "calculateZeroCrossing audio start_idx len =
     (if start_idx < 0 \<or> start_idx + len > int (length audio) then 0
      else real_of_int (countCrossings audio start_idx len) / real_of_int len)"

definition isSpeechWindow :: "real list \<Rightarrow> int \<Rightarrow> bool" where
  "isSpeechWindow audio i =
     (let energy = calculateEnergy audio i WINDOW_SIZE;
          zc = calculateZeroCrossing audio i WINDOW_SIZE
      in energy > ENERGY_THRESHOLD \<and> zc > ZC_THRESHOLD)"

text \<open>
  The loop of \<^verbatim>\<open>findBestBoundary\<close>, in steps of a quarter window, with \<^verbatim>\<open>bestScore\<close> and
  \<^verbatim>\<open>bestSample\<close>.
\<close>

function boundaryLoop :: "real list \<Rightarrow> int \<Rightarrow> bool \<Rightarrow> int \<Rightarrow> real \<Rightarrow> int \<Rightarrow> int" where
  "boundaryLoop audio searchEnd findStart i bestScore bestSample =
     (if i < searchEnd
      then (if i < WINDOW_SIZE \<or> i + WINDOW_SIZE \<ge> int (length audio)
            then boundaryLoop audio searchEnd findStart (i + WINDOW_SIZE div 4) bestScore bestSample
            else let energyBefore = calculateEnergy audio (i - WINDOW_SIZE) WINDOW_SIZE;
                     energyAfter = calculateEnergy audio i WINDOW_SIZE;
                     gradient = \<bar>energyAfter - energyBefore\<bar>;
                     score = (if findStart then energyAfter - energyBefore
                              else energyBefore - energyAfter)
                 in if score > bestScore \<and> gradient > ENERGY_THRESHOLD
                    then boundaryLoop audio searchEnd findStart (i + WINDOW_SIZE div 4) score i
                    else boundaryLoop audio searchEnd findStart (i + WINDOW_SIZE div 4)
                           bestScore bestSample)
      else bestSample)"
  by pat_completeness auto
termination
  by (relation "measure (\<lambda>(audio, searchEnd, findStart, i, bestScore, bestSample).
                          nat (searchEnd - i))")
     (auto simp: WINDOW_SIZE_def)

declare boundaryLoop.simps [simp del]

definition findBestBoundary :: "real list \<Rightarrow> int \<Rightarrow> int \<Rightarrow> int \<Rightarrow> bool \<Rightarrow> real" where
  "findBestBoundary audio centerSample searchRadius sample_rate findStart =
     (let searchStart = max 0 (centerSample - (if findStart then searchRadius else 0));
          searchEnd = min (int (length audio))
                          (centerSample + (if findStart then 0 else searchRadius));
          bestSample = boundaryLoop audio searchEnd findStart searchStart (- 1) centerSample
      in real_of_int bestSample / real_of_int sample_rate)"

text \<open>
  The loop of \<^verbatim>\<open>searchForSpeech\<close> that collects the regions, window by window, with
  \<^verbatim>\<open>inSpeech\<close>, \<^verbatim>\<open>regionStart\<close> and \<^verbatim>\<open>energyRegions\<close>.
\<close>

function regionLoop ::
  "real list \<Rightarrow> int \<Rightarrow> int \<Rightarrow> bool \<Rightarrow> int \<Rightarrow> (int \<times> int) list
   \<Rightarrow> bool \<times> int \<times> (int \<times> int) list" where
  "regionLoop audio searchEnd i inSpeech regionStart energyRegions =
     (if i < searchEnd
      then (let isSpeech = isSpeechWindow audio i
            in if isSpeech \<and> \<not> inSpeech
               then regionLoop audio searchEnd (i + WINDOW_SIZE) True i energyRegions
               else if \<not> isSpeech \<and> inSpeech
               then regionLoop audio searchEnd (i + WINDOW_SIZE) False regionStart
                      (energyRegions @ [(regionStart, i)])
               else regionLoop audio searchEnd (i + WINDOW_SIZE) inSpeech regionStart
                      energyRegions)
      else (inSpeech, regionStart, energyRegions))"
  by pat_completeness auto
termination
  by (relation "measure (\<lambda>(audio, searchEnd, i, inSpeech, regionStart, energyRegions).
                          nat (searchEnd - i))")
     (auto simp: WINDOW_SIZE_def)

declare regionLoop.simps [simp del]

text \<open>The loop that picks the region closest to the recognizer's centre.\<close>

fun closestRegion :: "int \<Rightarrow> (int \<times> int) list \<Rightarrow> int \<Rightarrow> int \<times> int \<Rightarrow> int \<times> int" where
  "closestRegion whisperCenter [] closestDist bestRegion = bestRegion"
| "closestRegion whisperCenter (region # rest) closestDist bestRegion =
     (let regionCenter = (fst region + snd region) div 2;
          dist = \<bar>regionCenter - whisperCenter\<bar>;
          dist = (if regionCenter < whisperCenter
                  then trunc_int (real_of_int dist * (8 / 10)) else dist)
      in if dist < closestDist
         then closestRegion whisperCenter rest dist region
         else closestRegion whisperCenter rest closestDist bestRegion)"

definition searchForSpeech :: "real list \<Rightarrow> real \<Rightarrow> real \<Rightarrow> int \<Rightarrow> real \<times> real" where
  "searchForSpeech audio whisperStart whisperEnd sample_rate =
     (let whisperStartSample = trunc_int (whisperStart * real_of_int sample_rate);
          whisperEndSample = trunc_int (whisperEnd * real_of_int sample_rate);
          whisperStartSample = max 0 (min whisperStartSample (int (length audio) - 1));
          whisperEndSample = max whisperStartSample (min whisperEndSample (int (length audio)));
          searchRadius = SEARCH_RADIUS;
          searchStart = max 0 (whisperStartSample - searchRadius);
          searchEnd = min (int (length audio)) (whisperEndSample + searchRadius)
      in case regionLoop audio searchEnd searchStart False 0 [] of
           (inSpeech, regionStart, regions) \<Rightarrow>
             let energyRegions = (if inSpeech then regions @ [(regionStart, searchEnd)]
                                  else regions)
             in if energyRegions = [] then (whisperStart, whisperEnd)
                else let whisperCenter = (whisperStartSample + whisperEndSample) div 2;
                         bestRegion = closestRegion whisperCenter energyRegions INT_MAX
                                        (hd energyRegions);
                         refinedStart = findBestBoundary audio (fst bestRegion)
                                          (WINDOW_SIZE * 4) sample_rate True;
                         refinedEnd = findBestBoundary audio (snd bestRegion)
                                          (WINDOW_SIZE * 4) sample_rate False;
                         refinedEnd = (if refinedEnd \<le> refinedStart
                                       then refinedStart + MIN_WORD_DURATION else refinedEnd);
                         refinedEnd = (if refinedEnd - refinedStart > MAX_WORD_DURATION
                                       then refinedStart + MAX_WORD_DURATION else refinedEnd)
                     in (refinedStart, refinedEnd))"

definition refineWordTimestamp :: "WordSegment \<Rightarrow> real list \<Rightarrow> int \<Rightarrow> WordSegment" where
  "refineWordTimestamp w audio sample_rate =
     (case searchForSpeech audio (start w) (end_time w) sample_rate of
        (refinedStart, refinedEnd) \<Rightarrow> w\<lparr>start := refinedStart, end_time := refinedEnd\<rparr>)"

text \<open>
  Ten milliseconds of a square wave of amplitude 0.5 at 48 kHz, and a word the recognizer
  placed at 0 to 0.3 seconds.
\<close>

definition burst_audio :: "real list" where
  "burst_audio = map (\<lambda>i. if even i then 1 / 2 else - (1 / 2)) [0 ..< 480]"

definition burst_word :: WordSegment where
  "burst_word = \<lparr>word = ''hey'', start = 0, end_time = 3 / 10, confidence = 1\<rparr>"

section \<open>Runs of the engine\<close>

text \<open>
  \<open>delayFrames\<close> is the loop of the callback over the frames of its input, without its
  output. The delay buffer is written by two threads: by that loop, one frame at a time,
  and by the worker, which rewrites the interval of a detected word.

  A run lists the steps of the two threads in order. \<open>Callback inputChannelData
  numSamples\<close> is one call of the audio callback. \<open>TakeChunk\<close> is the worker taking the
  chunk handed to it, in \<^verbatim>\<open>whisperThreadFunction\<close> under the lock: it keeps the capture
  time and clears the flag. \<open>Profanity text profanityStart profanityEnd isMultiWord\<close> is
  the worker's handling of one detected word in \<^verbatim>\<open>processTranscription\<close>. Each is taken as
  one step: the writes of a rewrite are not interleaved with the passes of the callback's
  loop. The number of output channels is the same for every callback of a run.
\<close>

definition delayFrames :: "AudioEngine \<Rightarrow> real list list \<Rightarrow> nat \<Rightarrow> AudioEngine" where
  "delayFrames st frames numOutputChannels =
     fold (\<lambda>frame s. snd (delayFrame s frame numOutputChannels)) frames st"

datatype EngineEvent =
    Callback "real list list" nat
  | TakeChunk
  | Profanity string real real bool

fun engineStep :: "nat \<Rightarrow> EngineEvent \<Rightarrow> AudioEngine \<Rightarrow> AudioEngine" where
  "engineStep numOutputChannels (Callback inputChannelData numSamples) st =
     snd (audioDeviceIOCallbackWithContext st inputChannelData numOutputChannels numSamples)"
| "engineStep numOutputChannels TakeChunk st =
     st\<lparr>workerCaptureTime := bufferCaptureTime st, hasNewBuffer := False\<rparr>"
| "engineStep numOutputChannels (Profanity profanityText profanityStart profanityEnd isMultiWord) st =
     processProfanity st profanityText (workerCaptureTime st) profanityStart profanityEnd
       isMultiWord"

definition engineRun :: "AudioEngine \<Rightarrow> EngineEvent list \<Rightarrow> nat \<Rightarrow> AudioEngine" where
  "engineRun st evs numOutputChannels = fold (engineStep numOutputChannels) evs st"

text \<open>The frames of an event, and the input frames of a run, in order.\<close>

fun eventFrames :: "EngineEvent \<Rightarrow> real list list" where
  "eventFrames (Callback inputChannelData numSamples) = framesOf inputChannelData numSamples"
| "eventFrames TakeChunk = []"
| "eventFrames (Profanity profanityText profanityStart profanityEnd isMultiWord) = []"

definition inputFrames :: "EngineEvent list \<Rightarrow> real list list" where
  "inputFrames evs = concat (map eventFrames evs)"

definition frameCount :: "EngineEvent list \<Rightarrow> nat" where
  "frameCount evs = length (inputFrames evs)"

text \<open>
  The positions a rewrite writes are \<open>(chunkStartPos + i) mod N\<close> for \<open>i\<close> from
  \<open>startSample\<close> to \<open>endSample - 1\<close>, in both modes. \<open>stepCovers st ev p\<close>: the step \<open>ev\<close>,
  taken in the state \<open>st\<close>, is a rewrite that is applied (the underrun flag is not raised)
  and writes position \<open>p\<close>. \<open>untouchedLate numOut p r st evs\<close>: in the run \<open>evs\<close> from \<open>st\<close>
  no step that comes after \<open>r\<close> or more frames of the run rewrites position \<open>p\<close>.
\<close>

definition regionCovers :: "int \<Rightarrow> int \<times> int \<times> int \<Rightarrow> int \<Rightarrow> bool" where
  "regionCovers N region p =
     (case region of
        (chunkStartPos, startSample, endSample) \<Rightarrow>
          p \<in> set (map (\<lambda>i. (chunkStartPos + i) mod N) [startSample .. endSample - 1]))"

definition stepCovers :: "AudioEngine \<Rightarrow> EngineEvent \<Rightarrow> int \<Rightarrow> bool" where
  "stepCovers st ev p =
     (case ev of
        Callback inputChannelData numSamples \<Rightarrow> False
      | TakeChunk \<Rightarrow> False
      | Profanity profanityText profanityStart profanityEnd isMultiWord \<Rightarrow>
          \<not> bufferUnderrun st
          \<and> regionCovers (delayBufferSize st)
                (censorRegion st (workerCaptureTime st) profanityStart profanityEnd) p)"

fun untouchedLate :: "nat \<Rightarrow> int \<Rightarrow> int \<Rightarrow> AudioEngine \<Rightarrow> EngineEvent list \<Rightarrow> bool" where
  "untouchedLate numOutputChannels p r st [] = True"
| "untouchedLate numOutputChannels p r st (ev # evs) =
     ((r \<le> 0 \<longrightarrow> \<not> stepCovers st ev p)
      \<and> untouchedLate numOutputChannels p (r - int (length (eventFrames ev)))
            (engineStep numOutputChannels ev st) evs)"

text \<open>
  The invariant of the loop after \<open>t\<close> frames, for an engine of rate \<open>rate\<close>, initial delay
  \<open>initialDelay\<close> and a buffer of \<open>N\<close> frames: the write position is \<open>t mod N\<close>; the read
  position stays at 0 until the gap has reached \<open>G\<close>, the least number of frames lasting
  \<open>initialDelay\<close> seconds, and follows the write position at that distance afterwards.
\<close>

definition delay_line_inv :: "int \<Rightarrow> real \<Rightarrow> CensorMode \<Rightarrow> int \<Rightarrow> nat \<Rightarrow> AudioEngine \<Rightarrow> bool" where
  "delay_line_inv rate initialDelay mode N t st =
     (let G = \<lceil>initialDelay * real_of_int rate\<rceil>
      in sampleRate st = rate \<and> initialDelaySeconds st = initialDelay
         \<and> currentCensorMode st = mode \<and> delayBufferSize st = N
         \<and> length (delayBuffer st) = 2
         \<and> length (delayBuffer st ! 0) = nat N \<and> length (delayBuffer st ! 1) = nat N
         \<and> delayWritePos st = int t mod N \<and> \<not> wasPaused st
         \<and> (if int t \<le> G then \<not> playbackStarted st \<and> delayReadPos st = 0
             else playbackStarted st \<and> delayReadPos st = (int t - G) mod N))"

text \<open>
  What a run keeps of the buffer-health monitor when the flag has not been raised: the
  engine is running with chunks of \<open>chunk\<close> seconds, the flag is clear, no underrun has
  been counted and no word has been skipped.
\<close>

definition never_underrun :: "real \<Rightarrow> AudioEngine \<Rightarrow> bool" where
  "never_underrun chunk st =
     (isRunning st \<and> chunkSeconds st = chunk \<and> \<not> bufferUnderrun st
      \<and> bufferUnderrunCount st = 0 \<and> totalWordsSkipped st = 0)"

subsection \<open>Example runs\<close>

text \<open>
  Inputs of \<open>n\<close> samples: two silent channels; two channels that are silent after a first
  frame of 1/2 and 1/4; one channel that is silent after a first sample of 1/2. The
  engine of \<^verbatim>\<open>AudioEngine.h\<close> at 48 kHz after one callback of 144001 silent frames, when
  playback has started. The first chunk of two seconds, completed by the second of two
  callbacks and taken by the worker.
\<close>

definition silence :: "nat \<Rightarrow> real list list" where
  "silence n = [replicate n 0, replicate n 0]"

definition click :: "nat \<Rightarrow> real list list" where
  "click n = [1 / 2 # replicate (n - 1) 0, 1 / 4 # replicate (n - 1) 0]"

definition mono_click :: "nat \<Rightarrow> real list list" where
  "mono_click n = [1 / 2 # replicate (n - 1) 0]"


definition first_chunk :: "EngineEvent list" where
  "first_chunk = [Callback (click 1000) 1000, Callback (silence 95000) 95000, TakeChunk]"

section \<open>Facts about the queue\<close>

lemma mask_6_word: "(63 :: 64 word) = mask 6"
  by (simp add: mask_eq_exp_minus_1)

lemma unat_increment_64: "unat (increment 64 w) = (unat w + 1) mod 64"
proof -
  have "increment 64 w = take_bit 6 (w + 1)"
    by (simp add: increment_def mask_6_word take_bit_eq_mask)
  then have "unat (increment 64 w) = take_bit 6 (unat (w + 1))"
    by (simp add: unsigned_take_bit_eq)
  also have "\<dots> = unat (w + 1) mod 64"
    by (simp add: take_bit_eq_mod)
  also have "\<dots> = (unat w + 1) mod 64"
    by (simp add: unat_word_ariths mod_mod_cancel)
  finally show ?thesis .
qed

lemma push_64_room:
  assumes "q_head q = 0" and "unat (q_tail q) < 63"
  shows "fst (push 64 x q) = True"
    and "q_head (snd (push 64 x q)) = 0"
    and "unat (q_tail (snd (push 64 x q))) = unat (q_tail q) + 1"
proof -
  have u: "unat (increment 64 (q_tail q)) = unat (q_tail q) + 1"
    using assms(2) by (simp add: unat_increment_64)
  then have ne: "increment 64 (q_tail q) \<noteq> q_head q"
    using assms(1) by (metis Suc_eq_plus1 nat.distinct(1) unat_0)
  show "fst (push 64 x q) = True"
    using ne by (simp add: push_def Let_def)
  show "q_head (snd (push 64 x q)) = 0"
    using ne assms(1) by (simp add: push_def Let_def)
  show "unat (q_tail (snd (push 64 x q))) = unat (q_tail q) + 1"
    using ne u by (simp add: push_def Let_def)
qed

lemma push_64_full:
  assumes "q_head q = 0" and "unat (q_tail q) = 63"
  shows "push 64 x q = (False, q)"
proof -
  have "unat (increment 64 (q_tail q)) = 0"
    using assms(2) by (simp add: unat_increment_64)
  then have "increment 64 (q_tail q) = q_head q"
    using assms(1) by (simp add: unat_eq_0)
  then show ?thesis
    by (simp add: push_def Let_def)
qed

lemma push_all_64_from:
  assumes "q_head q = 0" and "unat (q_tail q) = k" and "k \<le> 63"
  shows "fst (push_all 64 xs q) =
           replicate (min (length xs) (63 - k)) True @ replicate (length xs - (63 - k)) False"
  using assms
proof (induction xs arbitrary: q k)
  case Nil
  then show ?case by simp
next
  case (Cons x xs)
  show ?case
  proof (cases "k < 63")
    case True
    obtain ok q' where p: "push 64 x q = (ok, q')" by (cases "push 64 x q")
    have ok: "ok = True" and h': "q_head q' = 0" and t': "unat (q_tail q') = k + 1"
      using push_64_room[of q x] Cons.prems True p by simp_all
    have "fst (push_all 64 xs q') =
            replicate (min (length xs) (63 - (k + 1))) True
            @ replicate (length xs - (63 - (k + 1))) False"
      using Cons.IH[OF h' t'] True by simp
    moreover have "63 - k = Suc (63 - (k + 1))"
      using True by simp
    ultimately show ?thesis
      using p ok by (simp add: split_def)
  next
    case False
    then have k: "k = 63" using Cons.prems by simp
    have p: "push 64 x q = (False, q)"
      by (rule push_64_full) (use Cons.prems k in simp_all)
    have "fst (push_all 64 xs q) = replicate (length xs) False"
      using Cons.IH[OF Cons.prems(1) Cons.prems(2)] k by simp
    then show ?thesis
      using p k by (simp add: split_def)
  qed
qed

text \<open>
  C5 (the spec's 64 against the code's 63). With \<^verbatim>\<open>Capacity = 64\<close> and a consumer that
  never pops, the first 63 pushes on a new queue return \<^verbatim>\<open>true\<close> and every later one
  returns \<^verbatim>\<open>false\<close>: one slot stays unused so that a full ring differs from an empty
  one. The number of rejected pushes is the number attempted minus 63, not minus 64.
\<close>

theorem push_all_capacity_64:
  "fst (push_all 64 items (LockFreeQueue_new d)) =
     replicate (min (length items) 63) True @ replicate (length items - 63) False"
  using push_all_64_from[of "LockFreeQueue_new d" 0 items]
  by (simp add: LockFreeQueue_new_def)



section \<open>Facts about the lexicon lookup\<close>

lemma tolower_c_idem: "tolower_c (tolower_c c) = tolower_c c"
  by (simp add: tolower_c_def Let_def)

lemma map_tolower_c_idem: "map tolower_c (map tolower_c s) = map tolower_c s"
  by (induction s) (simp_all add: tolower_c_idem)

text \<open>
  C8, as amended. \<^verbatim>\<open>isProfane\<close> lowers the bytes of the word and strips nothing: its
  answer depends only on the lower-cased word. It is the same for \<open>s\<close> and for the
  lower-cased \<open>s\<close>, and the same for two words whose lower-cased forms are equal.
\<close>

theorem isProfane_lowercase_only:
  "isProfane lexicon s = isProfane lexicon (map tolower_c s)
   \<and> (map tolower_c s = map tolower_c t \<longrightarrow> isProfane lexicon s = isProfane lexicon t)"
  unfolding isProfane_def Let_def map_tolower_c_idem by simp

theorem isProfane_lowercase_only_witness:
  "map tolower_c ''DAMN'' = map tolower_c ''damn''
   \<and> isProfane {''damn''} ''DAMN'' = isProfane {''damn''} ''damn''
   \<and> isProfane {''damn''} ''DAMN''"
proof -
  have h: "map tolower_c ''DAMN'' = map tolower_c ''damn''" by code_simp
  have p: "isProfane {''damn''} ''damn''" by code_simp
  from isProfane_lowercase_only[of "{''damn''}" "''DAMN''" "''damn''"] h
  have e: "isProfane {''damn''} ''DAMN'' = isProfane {''damn''} ''damn''" by blast
  from e p have q: "isProfane {''damn''} ''DAMN''" by (rule iffD2)
  show ?thesis using h e q by (intro conjI)
qed

text \<open>
  C8, as stated, fails: \<^verbatim>\<open>"damn!"\<close> and \<^verbatim>\<open>"damn"\<close> have the same normalised form, and
  with the lexicon \<^verbatim>\<open>{"damn"}\<close> the first is not profane while the second, which is
  also the normalised form of the first, is.
\<close>

theorem isProfane_normalize_counterexample:
  "normalizeText ''damn!'' = normalizeText ''damn''
   \<and> \<not> isProfane {''damn''} ''damn!''
   \<and> isProfane {''damn''} ''damn''
   \<and> isProfane {''damn''} (normalizeText ''damn!'')"
  by code_simp

section \<open>Facts about rounding\<close>

lemma halvings_le: "x < 2 ^ Suc k \<Longrightarrow> halvings x \<le> int k"
proof (induction k arbitrary: x)
  case 0
  then show ?case by (subst halvings.simps) simp
next
  case (Suc k)
  show ?case
  proof (cases "x < 2")
    case True
    then show ?thesis by (subst halvings.simps) simp
  next
    case False
    have "x / 2 < 2 ^ Suc k" using Suc.prems by simp
    then have "halvings (x / 2) \<le> int k" by (rule Suc.IH)
    then show ?thesis using False by (subst halvings.simps) simp
  qed
qed

lemma doublings_nonneg: "0 \<le> doublings k x"
  by (induction k arbitrary: x) simp_all

lemma exponent2_le_52:
  assumes "x < 2 ^ 53"
  shows "exponent2 x \<le> 52"
proof (cases "1 \<le> x")
  case True
  have "x < 2 ^ Suc 52" using assms by simp
  then have "halvings x \<le> int 52" by (rule halvings_le)
  then show ?thesis using True by (simp add: exponent2_def)
next
  case False
  then show ?thesis using doublings_nonneg[of 1022 x] by (simp add: exponent2_def)
qed

lemma round_half_even_bounds:
  "\<lfloor>q\<rfloor> \<le> round_half_even q" "round_half_even q \<le> \<lceil>q\<rceil>"
proof -
  show "\<lfloor>q\<rfloor> \<le> round_half_even q"
    by (simp add: round_half_even_def Let_def)
  have "\<lceil>q\<rceil> = \<lfloor>q\<rfloor> + 1" if "q - real_of_int \<lfloor>q\<rfloor> \<noteq> 0"
    using that by (simp add: ceiling_altdef)
  moreover have "\<lfloor>q\<rfloor> \<le> \<lceil>q\<rceil>" by (rule floor_le_ceiling)
  ultimately show "round_half_even q \<le> \<lceil>q\<rceil>"
    by (auto simp add: round_half_even_def Let_def)
qed

lemma round_double_between:
  assumes "0 \<le> x" and "x < 2 ^ 53"
  shows "real_of_int \<lfloor>x\<rfloor> \<le> round_double x" and "round_double x \<le> real_of_int \<lceil>x\<rceil>"
proof -
  have both: "real_of_int \<lfloor>x\<rfloor> \<le> round_double x \<and> round_double x \<le> real_of_int \<lceil>x\<rceil>"
  proof (cases "x = 0")
    case True
    then show ?thesis by (simp add: round_double_def)
  next
    case False
    then have pos: "0 < x" using assms(1) by simp
    define j where "j = nat (52 - exponent2 x)"
    have e: "exponent2 x \<le> 52" by (rule exponent2_le_52[OF assms(2)])
    have u: "ulp2 (exponent2 x) = 1 / 2 ^ j"
      using e by (cases "exponent2 x = 52") (simp_all add: ulp2_def j_def)
    define q where "q = x * 2 ^ j"
    have rd: "round_double x = real_of_int (round_half_even q) / 2 ^ j"
      using pos by (simp add: round_double_def Let_def u q_def)
    have "real_of_int (\<lfloor>x\<rfloor> * 2 ^ j) \<le> q"
      unfolding q_def by (simp add: mult_right_mono)
    then have "\<lfloor>x\<rfloor> * 2 ^ j \<le> \<lfloor>q\<rfloor>" by (simp only: le_floor_iff)
    then have "\<lfloor>x\<rfloor> * 2 ^ j \<le> round_half_even q"
      using round_half_even_bounds(1)[of q] by linarith
    then have "real_of_int (\<lfloor>x\<rfloor> * 2 ^ j) \<le> real_of_int (round_half_even q)"
      by (simp only: of_int_le_iff)
    then have lo: "real_of_int \<lfloor>x\<rfloor> \<le> real_of_int (round_half_even q) / 2 ^ j"
      by (simp add: pos_le_divide_eq)
    have "q \<le> real_of_int (\<lceil>x\<rceil> * 2 ^ j)"
      unfolding q_def by (simp add: mult_right_mono)
    then have "\<lceil>q\<rceil> \<le> \<lceil>x\<rceil> * 2 ^ j" by (simp only: ceiling_le_iff)
    then have "round_half_even q \<le> \<lceil>x\<rceil> * 2 ^ j"
      using round_half_even_bounds(2)[of q] by linarith
    then have "real_of_int (round_half_even q) \<le> real_of_int (\<lceil>x\<rceil> * 2 ^ j)"
      by (simp only: of_int_le_iff)
    then have hi: "real_of_int (round_half_even q) / 2 ^ j \<le> real_of_int \<lceil>x\<rceil>"
      by (simp add: pos_divide_le_eq)
    show ?thesis using lo hi by (simp add: rd)
  qed
  show "real_of_int \<lfloor>x\<rfloor> \<le> round_double x" using both by simp
  show "round_double x \<le> real_of_int \<lceil>x\<rceil>" using both by simp
qed

text \<open>
  The count \<^verbatim>\<open>(int)(x)\<close> of a rounded product that is not negative and fits an \<^verbatim>\<open>int\<close>: it
  lies between the floor and the ceiling of the exact product.
\<close>

lemma cast_count:
  assumes "0 \<le> x" and "x \<le> 2147483647"
  shows "\<lfloor>x\<rfloor> \<le> cast_int (round_double x)"
    and "cast_int (round_double x) \<le> \<lceil>x\<rceil>"
    and "0 \<le> cast_int (round_double x)"
    and "cast_int (round_double x) = \<lfloor>round_double x\<rfloor>"
proof -
  have x53: "x < 2 ^ 53" using assms(2) by simp
  note b = round_double_between[OF assms(1) x53]
  have f0: "0 \<le> \<lfloor>x\<rfloor>" using assms(1) by simp
  have y0: "0 \<le> round_double x" using b(1) f0 by linarith
  have lo: "\<lfloor>x\<rfloor> \<le> \<lfloor>round_double x\<rfloor>" using b(1) by (simp only: le_floor_iff)
  have hi: "\<lfloor>round_double x\<rfloor> \<le> \<lceil>x\<rceil>"
    using b(2) by (simp add: floor_le_iff) 
  have c: "\<lceil>x\<rceil> \<le> 2147483647" using assms(2) by (simp add: ceiling_le_iff)
  have t: "trunc_int (round_double x) = \<lfloor>round_double x\<rfloor>"
    using y0 by (simp add: trunc_int_def)
  have r1: "- 2147483648 \<le> \<lfloor>round_double x\<rfloor>" using lo f0 by linarith
  have r2: "\<lfloor>round_double x\<rfloor> \<le> 2147483647" using hi c by linarith
  show eq: "cast_int (round_double x) = \<lfloor>round_double x\<rfloor>"
    unfolding cast_int_def Let_def t using r1 r2 by simp
  show "\<lfloor>x\<rfloor> \<le> cast_int (round_double x)" using lo eq by linarith
  show "cast_int (round_double x) \<le> \<lceil>x\<rceil>" using hi eq by linarith
  show "0 \<le> cast_int (round_double x)" using lo f0 eq by linarith
qed

lemma round_double_7: "round_double 7 = 7"
  by (simp add: round_double_def exponent2_def halvings.simps ulp2_def round_half_even_def)

lemma round_double_minus_7_2: "round_double (- (7 / 2)) = - (7 / 2)"
  by (simp add: round_double_def exponent2_def halvings.simps ulp2_def round_half_even_def)

text \<open>
  The double nearest to 12/7, printed 1.7142857142857142, is
  \<open>7720456504063707 / 2 ^ 52\<close>, a little less than 12/7: its product with 3.5 is a little
  less than 6 and rounds to 6.
\<close>

lemma round_double_near_6:
  "round_double (7720456504063707 / 4503599627370496 * (7 / 2)) = 6"
  "\<lfloor>7720456504063707 / 4503599627370496 * (7 / 2) :: real\<rfloor> = 5"
  by (simp_all add: round_double_def exponent2_def halvings.simps ulp2_def round_half_even_def)

lemma round_double_large: "round_double (1000000000 * (7 / 2)) = 3500000000"
  by (simp add: round_double_def exponent2_def halvings.simps ulp2_def round_half_even_def)

section \<open>Facts about the forced aligner\<close>

lemma findBestStartPosition_loop_choice:
  "fst (findBestStartPosition_loop st tt sz ps best) = fst best
   \<or> fst (findBestStartPosition_loop st tt sz ps best) \<in> set ps"
proof (induction ps arbitrary: best)
  case Nil
  then show ?case by simp
next
  case (Cons p ps)
  obtain bp bs where b: "best = (bp, bs)" by (cases best)
  let ?score = "calculateSimilarity tt
                  (normalizeText (lyricsWindowText st p
                     (min (p + sz) (int (length (preprocessedLyrics st))))))"
  let ?best' = "if ?score > bs then (p, ?score) else (bp, bs)"
  have "findBestStartPosition_loop st tt sz (p # ps) best
          = findBestStartPosition_loop st tt sz ps ?best'"
    by (simp add: b Let_def)
  moreover have "fst ?best' = bp \<or> fst ?best' = p" by simp
  ultimately show ?case
    using Cons.IH[of ?best'] b by auto
qed

lemma findBestStartPosition_range:
  assumes "findBestStartPosition st ws searchStart searchEnd = (pos, score)"
  shows "pos = - 1 \<or> (searchStart \<le> pos \<and> pos < searchEnd
                        \<and> pos < int (length (preprocessedLyrics st)))"
proof -
  let ?n = "int (length (preprocessedLyrics st))"
  let ?T = "normalizeText (concat (map (\<lambda>w. word w @ '' '') ws))"
  let ?r = "findBestStartPosition_loop st ?T (int (length ws))
              [searchStart .. min searchEnd ?n - 1] (- 1, 0)"
  have "fst ?r = - 1 \<or> fst ?r \<in> set [searchStart .. min searchEnd ?n - 1]"
    using findBestStartPosition_loop_choice[of st ?T "int (length ws)"
            "[searchStart .. min searchEnd ?n - 1]" "(- 1, 0)"] by simp
  moreover have "fst ?r = pos"
    using assms by (simp add: findBestStartPosition_def Let_def)
  ultimately show ?thesis by auto
qed

lemma trunc_int_nonneg: "0 \<le> x \<Longrightarrow> 0 \<le> trunc_int x"
  by (simp add: trunc_int_def)

lemma searchRange_start_nonneg:
  assumes "0 \<le> currentPosition st" and "searchRange st est = (s, e)"
  shows "0 \<le> s"
  using assms by (auto simp: searchRange_def Let_def split: if_splits)

lemma unlockOnJump_fields:
  "currentPosition (unlockOnJump st T) = currentPosition st"
  "preprocessedLyrics (unlockOnJump st T) = preprocessedLyrics st"
  "initialized (unlockOnJump st T) = initialized st"
  by (simp_all add: unlockOnJump_def)

lemma alignChunk_cursor_in_bounds:
  assumes "cursor_in_bounds st"
  shows "cursor_in_bounds (snd (alignChunk st ws T))"
proof -
  let ?st1 = "unlockOnJump st T"
  let ?n = "int (length (preprocessedLyrics st))"
  obtain s e where se: "searchRange ?st1 (estimatedPosition st T) = (s, e)"
    by (cases "searchRange ?st1 (estimatedPosition st T)")
  obtain pos score where fb: "findBestStartPosition ?st1 ws s e = (pos, score)"
    by (cases "findBestStartPosition ?st1 ws s e")
  have s0: "0 \<le> s"
    using searchRange_start_nonneg[OF _ se] assms
    by (simp add: cursor_in_bounds_def unlockOnJump_fields)
  have rng: "pos = - 1 \<or> (s \<le> pos \<and> pos < ?n)"
    using findBestStartPosition_range[OF fb] by (auto simp: unlockOnJump_fields)
  have inv1: "0 \<le> currentPosition ?st1 \<and> currentPosition ?st1 \<le> ?n"
    using assms by (simp add: cursor_in_bounds_def getTotalWords_def unlockOnJump_fields)
  show ?thesis
    using se fb s0 rng inv1 assms
    by (auto simp: alignChunk_def Let_def cursor_in_bounds_def getTotalWords_def
                   unlockOnJump_fields)
qed


lemma setLyrics_cursor_in_bounds: "cursor_in_bounds (setLyrics st lyrics)"
  by (simp add: cursor_in_bounds_def setLyrics_def getTotalWords_def Let_def)

lemma reset_cursor_in_bounds: "cursor_in_bounds (reset st)"
  by (simp add: cursor_in_bounds_def reset_def getTotalWords_def)

lemma predictNextWords_cursor:
  "currentPosition (snd (predictNextWords st duration)) =
     (if \<not> isReady st \<or> currentPosition st \<ge> int (length (preprocessedLyrics st))
      then currentPosition st
      else currentPosition st
           + min (cast_int (round_double (duration * WORDS_PER_SECOND)))
                 (int (length (preprocessedLyrics st)) - currentPosition st))"
  by (simp add: predictNextWords_def Let_def)

lemma predictNextWords_lyrics:
  "preprocessedLyrics (snd (predictNextWords st duration)) = preprocessedLyrics st"
  by (simp add: predictNextWords_def Let_def)

lemma predictNextWords_cursor_in_bounds:
  assumes "cursor_in_bounds st" and "0 \<le> duration" and "duration * (7 / 2) \<le> 2147483647"
  shows "cursor_in_bounds (snd (predictNextWords st duration))"
proof -
  have "0 \<le> cast_int (round_double (duration * WORDS_PER_SECOND))"
    using cast_count(3)[of "duration * (7 / 2)"] assms(2,3) by (simp add: WORDS_PER_SECOND_def)
  then show ?thesis
    using assms(1)
    by (auto simp: cursor_in_bounds_def getTotalWords_def predictNextWords_cursor
                   predictNextWords_lyrics)
qed

lemma predictNextWords_at_end:
  assumes "currentPosition st \<ge> getTotalWords st"
  shows "predictNextWords st duration = ([], st)"
  using assms by (simp add: predictNextWords_def getTotalWords_def)

lemma upto_int_map_nat: "0 \<le> k \<Longrightarrow> [0 .. k - 1] = map int [0 ..< nat k]"
proof (induction "nat k" arbitrary: k)
  case 0
  then show ?case by simp
next
  case (Suc n)
  then have k: "0 < k" and n: "n = nat (k - 1)" by linarith+
  have "[0 .. k - 1] = [0 .. (k - 1) - 1] @ [k - 1]"
    using k by (simp add: upto_rec2)
  also have "[0 .. (k - 1) - 1] = map int [0 ..< nat (k - 1)]"
    using Suc.hyps(1)[OF n] k by simp
  also have "map int [0 ..< nat (k - 1)] @ [k - 1] = map int [0 ..< nat k]"
  proof -
    have "nat k = Suc (nat (k - 1))" using k by simp
    then show ?thesis using k by simp
  qed
  finally show ?case .
qed


lemma predictNextWords_explicit:
  assumes "isReady st" and "cursor_in_bounds st"
    and "0 \<le> cast_int (round_double (duration * (7 / 2)))"
  defines "k \<equiv> min (cast_int (round_double (duration * (7 / 2))))
                     (getTotalWords st - currentPosition st)"
  shows "predictNextWords st duration =
           (map (\<lambda>i. \<lparr>word = lword (preprocessedLyrics st ! (nat (currentPosition st) + i)),
                      start = round_double (real i * round_double (duration / real_of_int k)),
                      end_time = round_double
                        (round_double (real i * round_double (duration / real_of_int k))
                         + round_double (duration / real_of_int k)),
                      confidence = 1 / 2\<rparr>)
                [0 ..< nat k],
            st\<lparr>currentPosition := currentPosition st + k\<rparr>)"
    and "0 \<le> k"
proof -
  have c0: "0 \<le> currentPosition st" and cn: "currentPosition st \<le> getTotalWords st"
    using assms(2) by (simp_all add: cursor_in_bounds_def)
  show k0: "0 \<le> k" using assms(3) cn by (simp add: k_def)
  show "predictNextWords st duration =
           (map (\<lambda>i. \<lparr>word = lword (preprocessedLyrics st ! (nat (currentPosition st) + i)),
                      start = round_double (real i * round_double (duration / real_of_int k)),
                      end_time = round_double
                        (round_double (real i * round_double (duration / real_of_int k))
                         + round_double (duration / real_of_int k)),
                      confidence = 1 / 2\<rparr>)
                [0 ..< nat k],
            st\<lparr>currentPosition := currentPosition st + k\<rparr>)"
  proof (cases "currentPosition st \<ge> int (length (preprocessedLyrics st))")
    case True
    then have "k = 0" using cn assms(3) by (simp add: k_def getTotalWords_def)
    then show ?thesis using True by (simp add: predictNextWords_def)
  next
    case False
    have nw: "min (cast_int (round_double (duration * WORDS_PER_SECOND)))
                  (int (length (preprocessedLyrics st)) - currentPosition st) = k"
      by (simp add: k_def getTotalWords_def WORDS_PER_SECOND_def)
    have idx: "\<And>i. nat (currentPosition st + int i) = nat (currentPosition st) + i"
      using c0 by (simp add: nat_add_distrib)
    show ?thesis
      using False assms(1)
      by (simp add: predictNextWords_def Let_def nw upto_int_map_nat[OF k0] idx o_def)
  qed
qed

lemma alignOrPredict_empty:
  assumes "isReady st"
  shows "alignOrPredict st [] songElapsedTime duration =
          (fst (predictNextWords st duration), snd (predictNextWords st duration),
           songElapsedTime)"
proof -
  have a: "alignChunk st [] songElapsedTime = ([], st)"
    by (simp add: alignChunk_def)
  show ?thesis
    using assms by (simp add: alignOrPredict_def a split_def)
qed


lemma alignChunk_strong_match_state:
  assumes "initialized st" and "preprocessedLyrics st \<noteq> []" and "ws \<noteq> []"
    and "\<not> isNonLyricalContent ws"
    and "searchRange (unlockOnJump st T) (estimatedPosition st T) = (s, e)"
    and "findBestStartPosition (unlockOnJump st T) ws s e = (matchPosition, matchScore)"
    and "0 \<le> matchPosition" and "LOCK_THRESHOLD \<le> matchScore"
  shows "snd (alignChunk st ws T) =
           (unlockOnJump st T)
             \<lparr>consecutiveMatches := consecutiveMatches (unlockOnJump st T) + 1,
              locked := (locked (unlockOnJump st T)
                         \<or> 2 \<le> consecutiveMatches (unlockOnJump st T) + 1),
              currentPosition := matchPosition
                 + min (int (length ws)) (getTotalWords st - matchPosition)\<rparr>"
  using assms
  by (simp add: alignChunk_def Let_def unlockOnJump_fields LOCK_REQUIRED_MATCHES_def
                getTotalWords_def)

subsection \<open>The nine-word scenario, chunk by chunk\<close>

lemma fox_aligner_eq: "fox_aligner =
  \<lparr>preprocessedLyrics = fox_lyrics,
    currentPosition = 0, locked = False, consecutiveMatches = 0, initialized = True\<rparr>"
  by code_simp

lemma fox_lyrics_length: "length fox_lyrics = 9" "fox_lyrics \<noteq> []"
  by (simp_all add: fox_lyrics_def)

lemma two_words_lyrical:
  "\<not> isNonLyricalContent (two_words ''the'' ''quick'')"
  "\<not> isNonLyricalContent (two_words ''brown'' ''fox'')"
  "\<not> isNonLyricalContent (two_words ''jumps'' ''over'')"
  by code_simp+

lemma two_words_nonempty: "two_words a b \<noteq> []" "length (two_words a b) = 2"
  by (simp_all add: two_words_def)

lemma fox_find1:
  "findBestStartPosition \<lparr>preprocessedLyrics = fox_lyrics,
      currentPosition = 0, locked = False, consecutiveMatches = 0, initialized = True\<rparr>
     (two_words ''the'' ''quick'') 0 9 = (0, 1)"
  by code_simp

lemma fox_after1_eq: "fox_after1 =
  \<lparr>preprocessedLyrics = fox_lyrics,
    currentPosition = 2, locked = False, consecutiveMatches = 1, initialized = True\<rparr>"
proof -
  let ?st = "\<lparr>preprocessedLyrics = fox_lyrics,
      currentPosition = 0, locked = False, consecutiveMatches = 0, initialized = True\<rparr>"
  have u: "unlockOnJump ?st 0 = ?st" by (simp add: unlockOnJump_def)
  have r: "searchRange (unlockOnJump ?st 0) (estimatedPosition ?st 0) = (0, 9)"
    by (simp add: u searchRange_def estimatedPosition_def fox_lyrics_length)
  have f: "findBestStartPosition (unlockOnJump ?st 0) (two_words ''the'' ''quick'') 0 9 = (0, 1)"
    by (simp add: u fox_find1)
  show ?thesis
    unfolding fox_after1_def fox_aligner_eq
    using alignChunk_strong_match_state[of ?st "two_words ''the'' ''quick''" 0 0 9 0 1,
             OF _ _ two_words_nonempty(1) two_words_lyrical(1) r f]
    by (simp add: u fox_lyrics_length two_words_nonempty LOCK_THRESHOLD_def getTotalWords_def)
qed


lemma fox_find2:
  "findBestStartPosition \<lparr>preprocessedLyrics = fox_lyrics,
      currentPosition = 2, locked = False, consecutiveMatches = 1, initialized = True\<rparr>
     (two_words ''brown'' ''fox'') 0 9 = (2, 1)"
  by code_simp

lemma fox_chunk2:
  "unlockOnJump fox_after1 2 = fox_after1"
  "searchRange (unlockOnJump fox_after1 2) (estimatedPosition fox_after1 2) = (0, 9)"
  "findBestStartPosition (unlockOnJump fox_after1 2) (two_words ''brown'' ''fox'') 0 9 = (2, 1)"
proof -
  show u: "unlockOnJump fox_after1 2 = fox_after1"
    by (simp add: unlockOnJump_def fox_after1_eq)
  show "searchRange (unlockOnJump fox_after1 2) (estimatedPosition fox_after1 2) = (0, 9)"
    unfolding u
    by (simp add: fox_after1_eq searchRange_def estimatedPosition_def trunc_int_def
                  WORDS_PER_SECOND_def fox_lyrics_length)
  show "findBestStartPosition (unlockOnJump fox_after1 2) (two_words ''brown'' ''fox'') 0 9 = (2, 1)"
    unfolding u by (simp add: fox_after1_eq fox_find2)
qed

lemma fox_after2_eq: "fox_after2 =
  \<lparr>preprocessedLyrics = fox_lyrics,
    currentPosition = 4, locked = True, consecutiveMatches = 2, initialized = True\<rparr>"
  unfolding fox_after2_def
  using alignChunk_strong_match_state[of fox_after1 "two_words ''brown'' ''fox''" 2 0 9 2 1,
           OF _ _ two_words_nonempty(1) two_words_lyrical(2) fox_chunk2(2) fox_chunk2(3)]
  by (simp add: fox_after1_eq fox_lyrics_length two_words_nonempty
                LOCK_THRESHOLD_def getTotalWords_def unlockOnJump_def)



subsection \<open>The other example aligners\<close>

lemma twenty_aligner_eq: "twenty_aligner =
  \<lparr>preprocessedLyrics = twenty_lyrics,
    currentPosition = 10, locked = True, consecutiveMatches = 0, initialized = True\<rparr>"
  by code_simp

lemma twenty_lyrics_length: "length twenty_lyrics = 20" "twenty_lyrics \<noteq> []"
  by (simp_all add: twenty_lyrics_def)




subsection \<open>The claims about the aligner\<close>

text \<open>
  C10. The cursor stays within \<open>0 \<le> currentPosition \<le> getTotalWords\<close>: it holds for a
  new aligner, after \<^verbatim>\<open>setLyrics\<close> and after \<^verbatim>\<open>reset\<close>; \<^verbatim>\<open>alignChunk\<close> keeps it for
  every chunk and every time; \<^verbatim>\<open>predictNextWords\<close> keeps it for every duration that is
  not negative and whose product with 3.5 fits an \<^verbatim>\<open>int\<close> (as the chunk length the
  worker passes); and \<^verbatim>\<open>predictNextWords\<close> returns no word when the cursor is at or past
  the end of the lyrics.
\<close>

theorem aligner_cursor_in_bounds:
  "cursor_in_bounds LyricsAlignment_new
   \<and> cursor_in_bounds (setLyrics st lyrics)
   \<and> cursor_in_bounds (reset st)
   \<and> (cursor_in_bounds st \<longrightarrow> cursor_in_bounds (snd (alignChunk st ws T)))
   \<and> (cursor_in_bounds st \<and> 0 \<le> duration \<and> duration * (7 / 2) \<le> 2147483647
        \<longrightarrow> cursor_in_bounds (snd (predictNextWords st duration)))
   \<and> (currentPosition st \<ge> getTotalWords st \<longrightarrow> fst (predictNextWords st duration) = [])"
  using setLyrics_cursor_in_bounds reset_cursor_in_bounds alignChunk_cursor_in_bounds
        predictNextWords_cursor_in_bounds predictNextWords_at_end
  by (simp add: cursor_in_bounds_def LyricsAlignment_new_def getTotalWords_def)

text \<open>C10 at the scenario's aligner after its second chunk, and with the cursor at the end.\<close>

theorem aligner_cursor_in_bounds_witness:
  "cursor_in_bounds fox_after2
   \<and> cursor_in_bounds (snd (alignChunk fox_after2 (two_words ''jumps'' ''over'') 4))
   \<and> (0::real) \<le> 2 \<and> (2::real) * (7 / 2) \<le> 2147483647
   \<and> cursor_in_bounds (snd (predictNextWords fox_after2 2))
   \<and> getTotalWords (fox_after2\<lparr>currentPosition := 9\<rparr>)
        \<le> currentPosition (fox_after2\<lparr>currentPosition := 9\<rparr>)
   \<and> fst (predictNextWords (fox_after2\<lparr>currentPosition := 9\<rparr>) 2) = []"
proof -
  have b: "cursor_in_bounds fox_after2"
    by (simp add: cursor_in_bounds_def getTotalWords_def fox_after2_eq fox_lyrics_length)
  have d: "(0::real) \<le> 2" by simp
  have d2: "(2::real) * (7 / 2) \<le> 2147483647" by simp
  have e: "getTotalWords (fox_after2\<lparr>currentPosition := 9\<rparr>)
             \<le> currentPosition (fox_after2\<lparr>currentPosition := 9\<rparr>)"
    by (simp add: getTotalWords_def fox_after2_eq fox_lyrics_length)
  note t1 = aligner_cursor_in_bounds[of fox_after2 undefined "two_words ''jumps'' ''over''" 4 2]
  note t2 = aligner_cursor_in_bounds[of "fox_after2\<lparr>currentPosition := 9\<rparr>" undefined "[]" 0 2]
  from t1 b have a1: "cursor_in_bounds (snd (alignChunk fox_after2 (two_words ''jumps'' ''over'') 4))"
    by blast
  from t1 b d d2 have a2: "cursor_in_bounds (snd (predictNextWords fox_after2 2))"
    by blast
  from t2 e have a3: "fst (predictNextWords (fox_after2\<lparr>currentPosition := 9\<rparr>) 2) = []"
    by blast
  show ?thesis using b d d2 e a1 a2 a3 by (intro conjI)
qed

text \<open>
  C10 as it is written, for every operation, fails at \<^verbatim>\<open>predictNextWords\<close>: on the
  scenario's aligner with the cursor at 0, a duration of -1 gives the count
  \<^verbatim>\<open>(int)(-3.5)\<close>, which is -3, and leaves the cursor at -3; a duration of a thousand
  million seconds gives a product beyond the range of \<^verbatim>\<open>int\<close> and leaves the cursor at
  \<open>- 2 ^ 31\<close>.
\<close>

theorem aligner_cursor_in_bounds_counterexample:
  "cursor_in_bounds fox_aligner
   \<and> currentPosition (snd (predictNextWords fox_aligner (- 1))) = - 3
   \<and> \<not> cursor_in_bounds (snd (predictNextWords fox_aligner (- 1)))
   \<and> currentPosition (snd (predictNextWords fox_aligner 1000000000)) = - 2147483648
   \<and> \<not> cursor_in_bounds (snd (predictNextWords fox_aligner 1000000000))"
proof -
  have r: "isReady fox_aligner" "currentPosition fox_aligner = 0"
    "length (preprocessedLyrics fox_aligner) = 9"
    by (simp_all add: isReady_def fox_aligner_eq fox_lyrics_length)
  have b: "cursor_in_bounds fox_aligner"
    by (simp add: cursor_in_bounds_def getTotalWords_def r)
  have n1: "cast_int (round_double (- 1 * WORDS_PER_SECOND)) = - 3"
    by (simp add: WORDS_PER_SECOND_def round_double_minus_7_2 cast_int_def trunc_int_def)
  have n2: "cast_int (round_double (1000000000 * WORDS_PER_SECOND)) = - 2147483648"
    using round_double_large by (simp add: WORDS_PER_SECOND_def cast_int_def trunc_int_def)
  have c1: "currentPosition (snd (predictNextWords fox_aligner (- 1))) = - 3"
    unfolding predictNextWords_cursor n1 by (simp add: r)
  have c2: "currentPosition (snd (predictNextWords fox_aligner 1000000000)) = - 2147483648"
    unfolding predictNextWords_cursor n2 by (simp add: r)
  have o1: "\<not> cursor_in_bounds (snd (predictNextWords fox_aligner (- 1)))"
    by (simp add: cursor_in_bounds_def c1)
  have o2: "\<not> cursor_in_bounds (snd (predictNextWords fox_aligner 1000000000))"
    by (simp add: cursor_in_bounds_def c2)
  show ?thesis using b c1 o1 c2 o2 by (intro conjI)
qed

text \<open>
  C7. When the recognizer returned no word and the aligner is ready (lyrics loaded; the
  code does not ask whether it is locked, so a locked aligner is included), the worker's
  fallback emits \<open>k = min n (words remaining)\<close> lyrics words starting at the cursor, where
  \<open>n\<close> is the count \<^verbatim>\<open>(int)(duration * 3.5)\<close> of the code, with the product rounded to a
  double: \<open>n\<close> is \<open>\<lfloor>duration \<cdot> 3.5\<rfloor>\<close> or, when the product rounds up to it, the next whole
  number. Word \<open>i\<close> runs from \<open>i \<cdot> w\<close> for \<open>w = duration / k\<close> seconds, each operation rounded
  to a double, and has confidence 0.5; the cursor advances by \<open>k\<close>. This holds for a
  duration that is not negative and whose product with 3.5 fits an \<^verbatim>\<open>int\<close>, with the
  cursor within its bounds.
\<close>

theorem prediction_fallback:
  fixes duration :: real and st :: LyricsAlignment
  defines "n \<equiv> cast_int (round_double (duration * (7 / 2)))"
  defines "k \<equiv> min n (getTotalWords st - currentPosition st)"
  defines "w \<equiv> round_double (duration / real_of_int k)"
  assumes "isReady st" and "cursor_in_bounds st"
    and "0 \<le> duration" and "duration * (7 / 2) \<le> 2147483647"
  shows "alignOrPredict st [] songElapsedTime duration =
           (map (\<lambda>i. \<lparr>word = lword (preprocessedLyrics st ! (nat (currentPosition st) + i)),
                      start = round_double (real i * w),
                      end_time = round_double (round_double (real i * w) + w),
                      confidence = 1 / 2\<rparr>)
                [0 ..< nat k],
            st\<lparr>currentPosition := currentPosition st + k\<rparr>,
            songElapsedTime)
         \<and> 0 \<le> k
         \<and> \<lfloor>duration * (7 / 2)\<rfloor> \<le> n \<and> n \<le> \<lceil>duration * (7 / 2)\<rceil>
         \<and> n = \<lfloor>round_double (duration * (7 / 2))\<rfloor>"
proof -
  have x0: "0 \<le> duration * (7 / 2)" using assms(6) by simp
  note c = cast_count[OF x0 assms(7)]
  have n0: "0 \<le> cast_int (round_double (duration * (7 / 2)))" by (rule c(3))
  note e = predictNextWords_explicit[OF assms(4,5) n0]
  have "alignOrPredict st [] songElapsedTime duration =
           (map (\<lambda>i. \<lparr>word = lword (preprocessedLyrics st ! (nat (currentPosition st) + i)),
                      start = round_double (real i * w),
                      end_time = round_double (round_double (real i * w) + w),
                      confidence = 1 / 2\<rparr>)
                [0 ..< nat k],
            st\<lparr>currentPosition := currentPosition st + k\<rparr>,
            songElapsedTime)"
    unfolding alignOrPredict_empty[OF assms(4)] e(1) w_def k_def n_def by simp
  moreover have "0 \<le> k" unfolding k_def n_def by (rule e(2))
  ultimately show ?thesis
    using c(1,2,4) unfolding n_def by simp
qed

text \<open>
  C7 at the spec's example: cursor 10 of twenty words and a chunk of 2 seconds give the
  seven words 10 to 16, word \<open>i\<close> starting at \<open>i\<close> times the double nearest 2/7, and the
  cursor 17.
\<close>

theorem prediction_fallback_witness:
  "isReady twenty_aligner \<and> locked twenty_aligner \<and> currentPosition twenty_aligner = 10
   \<and> (0::real) \<le> 2 \<and> (2::real) * (7 / 2) \<le> 2147483647
   \<and> map word (fst (alignOrPredict twenty_aligner [] 0 2))
        = [''w10'', ''w11'', ''w12'', ''w13'', ''w14'', ''w15'', ''w16'']
   \<and> map start (fst (alignOrPredict twenty_aligner [] 0 2))
        = map (\<lambda>i. round_double (real i * round_double (2 / 7))) [0 ..< 7]
   \<and> map confidence (fst (alignOrPredict twenty_aligner [] 0 2)) = replicate 7 (1 / 2)
   \<and> currentPosition (fst (snd (alignOrPredict twenty_aligner [] 0 2))) = 17"
proof -
  have r: "isReady twenty_aligner"
    by (simp add: isReady_def twenty_aligner_eq twenty_lyrics_length)
  have b: "cursor_in_bounds twenty_aligner"
    by (simp add: cursor_in_bounds_def getTotalWords_def twenty_aligner_eq twenty_lyrics_length)
  have d: "(0::real) \<le> 2" by simp
  have d2: "(2::real) * (7 / 2) \<le> 2147483647" by simp
  have n: "cast_int (round_double (2 * (7 / 2))) = 7"
    by (simp add: round_double_7 cast_int_def trunc_int_def)
  have k: "min (cast_int (round_double (2 * (7 / 2))))
               (getTotalWords twenty_aligner - currentPosition twenty_aligner) = 7"
    unfolding n by (simp add: getTotalWords_def twenty_aligner_eq twenty_lyrics_length)
  note p = prediction_fallback[OF r b d d2, of 0, unfolded k, THEN conjunct1]
  have l: "locked twenty_aligner" "currentPosition twenty_aligner = 10"
    by (simp_all add: twenty_aligner_eq)
  have c: "currentPosition (fst (snd (alignOrPredict twenty_aligner [] 0 2))) = 17"
    unfolding p by (simp add: twenty_aligner_eq)
  have m1: "map word (fst (alignOrPredict twenty_aligner [] 0 2))
             = [''w10'', ''w11'', ''w12'', ''w13'', ''w14'', ''w15'', ''w16'']"
    unfolding p by (simp add: twenty_aligner_eq twenty_lyrics_def o_def numeral_eq_Suc)
  have m2: "map start (fst (alignOrPredict twenty_aligner [] 0 2))
        = map (\<lambda>i. round_double (real i * round_double (2 / 7))) [0 ..< 7]"
    unfolding p by (simp add: o_def)
  have m3: "map confidence (fst (alignOrPredict twenty_aligner [] 0 2)) = replicate 7 (1 / 2)"
    unfolding p by (simp add: o_def map_replicate_const)
  show ?thesis
    using r l d d2 m1 m2 m3 c by (intro conjI)
qed

text \<open>
  C7 as it is written, with \<open>\<lfloor>duration \<cdot> 3.5\<rfloor>\<close>, fails at the duration
  1.7142857142857142, the double nearest 12/7: the floor of the product is 5, and from
  cursor 10 of twenty words the fallback emits 6 words and leaves the cursor at 16.
\<close>

theorem prediction_fallback_counterexample:
  "isReady twenty_aligner \<and> locked twenty_aligner \<and> currentPosition twenty_aligner = 10
   \<and> min \<lfloor>7720456504063707 / 4503599627370496 * (7 / 2) :: real\<rfloor>
          (getTotalWords twenty_aligner - currentPosition twenty_aligner) = 5
   \<and> length (fst (alignOrPredict twenty_aligner [] 0
                     (7720456504063707 / 4503599627370496))) = 6
   \<and> currentPosition (fst (snd (alignOrPredict twenty_aligner [] 0
                                   (7720456504063707 / 4503599627370496)))) = 16"
proof -
  have r: "isReady twenty_aligner"
    by (simp add: isReady_def twenty_aligner_eq twenty_lyrics_length)
  have b: "cursor_in_bounds twenty_aligner"
    by (simp add: cursor_in_bounds_def getTotalWords_def twenty_aligner_eq twenty_lyrics_length)
  have l: "locked twenty_aligner" "currentPosition twenty_aligner = 10"
    by (simp_all add: twenty_aligner_eq)
  have n: "cast_int (round_double (7720456504063707 / 4503599627370496 * (7 / 2))) = 6"
    unfolding round_double_near_6(1) by (simp add: cast_int_def trunc_int_def)
  have n0: "0 \<le> cast_int (round_double (7720456504063707 / 4503599627370496 * (7 / 2)))"
    unfolding n by simp
  have k: "min (cast_int (round_double (7720456504063707 / 4503599627370496 * (7 / 2))))
               (getTotalWords twenty_aligner - currentPosition twenty_aligner) = 6"
    unfolding n by (simp add: getTotalWords_def twenty_aligner_eq twenty_lyrics_length)
  note e = predictNextWords_explicit(1)[OF r b n0, unfolded k]
  have f: "min \<lfloor>7720456504063707 / 4503599627370496 * (7 / 2) :: real\<rfloor>
          (getTotalWords twenty_aligner - currentPosition twenty_aligner) = 5"
    unfolding round_double_near_6(2)
    by (simp add: getTotalWords_def twenty_aligner_eq twenty_lyrics_length)
  have a: "length (fst (alignOrPredict twenty_aligner [] 0
                     (7720456504063707 / 4503599627370496))) = 6"
    unfolding alignOrPredict_empty[OF r] e by simp
  have c: "currentPosition (fst (snd (alignOrPredict twenty_aligner [] 0
                                   (7720456504063707 / 4503599627370496)))) = 16"
    unfolding alignOrPredict_empty[OF r] e by (simp add: twenty_aligner_eq)
  show ?thesis using r l f a c by (intro conjI)
qed




section \<open>Facts about the audio callback\<close>

subsection \<open>The accumulator\<close>

lemma accumulate_length: "length (fst (accumulate buf pos ms)) = length buf"
  by (induction ms arbitrary: buf pos) auto

lemma accumulate_pos:
  assumes "0 \<le> pos" and "pos \<le> int (length buf)"
  shows "snd (accumulate buf pos ms) = min (pos + int (length ms)) (int (length buf))"
  using assms by (induction ms arbitrary: buf pos) auto

lemma accumulate_nth:
  assumes "0 \<le> pos" and "pos \<le> int (length buf)" and "k < length buf"
  shows "fst (accumulate buf pos ms) ! k =
           (if nat pos \<le> k \<and> k < nat pos + length ms then ms ! (k - nat pos) else buf ! k)"
  using assms
proof (induction ms arbitrary: buf pos)
  case Nil
  then show ?case by simp
next
  case (Cons m ms)
  show ?case
  proof (cases "pos < int (length buf)")
    case True
    have step: "accumulate buf pos (m # ms) = accumulate (buf[nat pos := m]) (pos + 1) ms"
      using True Cons.prems(1) by simp
    have ih: "fst (accumulate (buf[nat pos := m]) (pos + 1) ms) ! k =
                (if nat (pos + 1) \<le> k \<and> k < nat (pos + 1) + length ms
                 then ms ! (k - nat (pos + 1)) else (buf[nat pos := m]) ! k)"
      using Cons.IH[of "pos + 1" "buf[nat pos := m]"] True Cons.prems by simp
    have np: "nat (pos + 1) = Suc (nat pos)" using Cons.prems(1) by simp
    show ?thesis
    proof (cases "k = nat pos")
      case True
      then show ?thesis using step ih np Cons.prems by simp
    next
      case False
      then show ?thesis
        using step ih np Cons.prems
        by (auto simp: nth_Cons' Suc_diff_Suc split: if_splits)
    qed
  next
    case False
    then have full: "pos = int (length buf)" using Cons.prems by simp
    have "accumulate buf pos (m # ms) = accumulate buf pos ms"
      using False by simp
    then show ?thesis
      using Cons.IH[of pos buf] Cons.prems full by simp
  qed
qed

lemma accumulate_eq:
  assumes "0 \<le> pos" and "pos \<le> int (length buf)"
  shows "fst (accumulate buf pos ms) =
           take (nat pos) buf @ take (length buf - nat pos) ms @ drop (nat pos + length ms) buf"
proof (rule nth_equalityI)
  show "length (fst (accumulate buf pos ms)) =
        length (take (nat pos) buf @ take (length buf - nat pos) ms @ drop (nat pos + length ms) buf)"
    using assms by (simp add: accumulate_length min_def)
next
  fix k assume "k < length (fst (accumulate buf pos ms))"
  then have k: "k < length buf" by (simp add: accumulate_length)
  have np: "nat pos \<le> length buf" using assms by simp
  show "fst (accumulate buf pos ms) ! k =
        (take (nat pos) buf @ take (length buf - nat pos) ms @ drop (nat pos + length ms) buf) ! k"
    using accumulate_nth[OF assms k, of ms] k np
    by (auto simp: nth_append min_def add.commute)
qed


subsection \<open>What the parts of the callback leave as it is\<close>

lemma measureInputLevel_accumulator:
  "audioBuffer (measureInputLevel st inp n) = audioBuffer st"
  "bufferWritePos (measureInputLevel st inp n) = bufferWritePos st"
  "hasNewBuffer (measureInputLevel st inp n) = hasNewBuffer st"
  "transcriptionInterval (measureInputLevel st inp n) = transcriptionInterval st"
  by (simp_all add: measureInputLevel_def)

lemma measureInputLevel_delay:
  "sampleRate (measureInputLevel st inp n) = sampleRate st"
  "initialDelaySeconds (measureInputLevel st inp n) = initialDelaySeconds st"
  "chunkSeconds (measureInputLevel st inp n) = chunkSeconds st"
  "currentCensorMode (measureInputLevel st inp n) = currentCensorMode st"
  "delayBufferSize (measureInputLevel st inp n) = delayBufferSize st"
  "delayBuffer (measureInputLevel st inp n) = delayBuffer st"
  "delayWritePos (measureInputLevel st inp n) = delayWritePos st"
  "delayReadPos (measureInputLevel st inp n) = delayReadPos st"
  "playbackStarted (measureInputLevel st inp n) = playbackStarted st"
  "wasPaused (measureInputLevel st inp n) = wasPaused st"
  "isRunning (measureInputLevel st inp n) = isRunning st"
  "workerCaptureTime (measureInputLevel st inp n) = workerCaptureTime st"
  "bufferUnderrun (measureInputLevel st inp n) = bufferUnderrun st"
  by (simp_all add: measureInputLevel_def)

lemma accumulateInput_fields:
  "hasNewBuffer (accumulateInput st inp n) = hasNewBuffer st"
  "transcriptionInterval (accumulateInput st inp n) = transcriptionInterval st"
  by (simp_all add: accumulateInput_def split: prod.splits)

lemma accumulateInput_delay:
  "sampleRate (accumulateInput st inp n) = sampleRate st"
  "initialDelaySeconds (accumulateInput st inp n) = initialDelaySeconds st"
  "chunkSeconds (accumulateInput st inp n) = chunkSeconds st"
  "currentCensorMode (accumulateInput st inp n) = currentCensorMode st"
  "delayBufferSize (accumulateInput st inp n) = delayBufferSize st"
  "delayBuffer (accumulateInput st inp n) = delayBuffer st"
  "delayWritePos (accumulateInput st inp n) = delayWritePos st"
  "delayReadPos (accumulateInput st inp n) = delayReadPos st"
  "playbackStarted (accumulateInput st inp n) = playbackStarted st"
  "wasPaused (accumulateInput st inp n) = wasPaused st"
  "isRunning (accumulateInput st inp n) = isRunning st"
  "workerCaptureTime (accumulateInput st inp n) = workerCaptureTime st"
  "bufferUnderrun (accumulateInput st inp n) = bufferUnderrun st"
  by (simp_all add: accumulateInput_def split: prod.splits)

lemma identifySongAttempt_accumulator:
  "audioBuffer (identifySongAttempt st) = audioBuffer st"
  "bufferWritePos (identifySongAttempt st) = bufferWritePos st"
  "hasNewBuffer (identifySongAttempt st) = hasNewBuffer st"
  "transcriptionInterval (identifySongAttempt st) = transcriptionInterval st"
  by (simp_all add: identifySongAttempt_def Let_def)

lemma identifySongAttempt_delay:
  "sampleRate (identifySongAttempt st) = sampleRate st"
  "initialDelaySeconds (identifySongAttempt st) = initialDelaySeconds st"
  "chunkSeconds (identifySongAttempt st) = chunkSeconds st"
  "currentCensorMode (identifySongAttempt st) = currentCensorMode st"
  "delayBufferSize (identifySongAttempt st) = delayBufferSize st"
  "delayBuffer (identifySongAttempt st) = delayBuffer st"
  "delayWritePos (identifySongAttempt st) = delayWritePos st"
  "delayReadPos (identifySongAttempt st) = delayReadPos st"
  "playbackStarted (identifySongAttempt st) = playbackStarted st"
  "wasPaused (identifySongAttempt st) = wasPaused st"
  "isRunning (identifySongAttempt st) = isRunning st"
  "workerCaptureTime (identifySongAttempt st) = workerCaptureTime st"
  "bufferUnderrun (identifySongAttempt st) = bufferUnderrun st"
  by (simp_all add: identifySongAttempt_def Let_def)

lemma handoff_delay:
  "sampleRate (handoff st n) = sampleRate st"
  "initialDelaySeconds (handoff st n) = initialDelaySeconds st"
  "chunkSeconds (handoff st n) = chunkSeconds st"
  "currentCensorMode (handoff st n) = currentCensorMode st"
  "delayBufferSize (handoff st n) = delayBufferSize st"
  "delayBuffer (handoff st n) = delayBuffer st"
  "delayWritePos (handoff st n) = delayWritePos st"
  "delayReadPos (handoff st n) = delayReadPos st"
  "playbackStarted (handoff st n) = playbackStarted st"
  "wasPaused (handoff st n) = wasPaused st"
  "isRunning (handoff st n) = isRunning st"
  "workerCaptureTime (handoff st n) = workerCaptureTime st"
  "bufferUnderrun (handoff st n) = bufferUnderrun st"
  by (simp_all add: handoff_def Let_def)

lemma monitorBufferHealth_accumulator:
  "audioBuffer (monitorBufferHealth st) = audioBuffer st"
  "bufferWritePos (monitorBufferHealth st) = bufferWritePos st"
  "hasNewBuffer (monitorBufferHealth st) = hasNewBuffer st"
  "transcriptionInterval (monitorBufferHealth st) = transcriptionInterval st"
  by (simp_all add: monitorBufferHealth_def Let_def)

lemma monitorBufferHealth_delay:
  "sampleRate (monitorBufferHealth st) = sampleRate st"
  "initialDelaySeconds (monitorBufferHealth st) = initialDelaySeconds st"
  "chunkSeconds (monitorBufferHealth st) = chunkSeconds st"
  "currentCensorMode (monitorBufferHealth st) = currentCensorMode st"
  "delayBufferSize (monitorBufferHealth st) = delayBufferSize st"
  "delayBuffer (monitorBufferHealth st) = delayBuffer st"
  "delayWritePos (monitorBufferHealth st) = delayWritePos st"
  "delayReadPos (monitorBufferHealth st) = delayReadPos st"
  "playbackStarted (monitorBufferHealth st) = playbackStarted st"
  "wasPaused (monitorBufferHealth st) = wasPaused st"
  "isRunning (monitorBufferHealth st) = isRunning st"
  "workerCaptureTime (monitorBufferHealth st) = workerCaptureTime st"
  by (simp_all add: monitorBufferHealth_def Let_def)

lemma delayFrame_accumulator:
  "audioBuffer (snd (delayFrame st frame n)) = audioBuffer st"
  "bufferWritePos (snd (delayFrame st frame n)) = bufferWritePos st"
  "hasNewBuffer (snd (delayFrame st frame n)) = hasNewBuffer st"
  "transcriptionInterval (snd (delayFrame st frame n)) = transcriptionInterval st"
  by (simp_all add: delayFrame_def Let_def)

lemma delayLoop_accumulator:
  "audioBuffer (snd (delayLoop st frames n)) = audioBuffer st
   \<and> bufferWritePos (snd (delayLoop st frames n)) = bufferWritePos st
   \<and> hasNewBuffer (snd (delayLoop st frames n)) = hasNewBuffer st
   \<and> transcriptionInterval (snd (delayLoop st frames n)) = transcriptionInterval st"
proof (induction frames arbitrary: st)
  case Nil
  then show ?case by simp
next
  case (Cons f fs)
  obtain out st1 where d: "delayFrame st f n = (out, st1)" by (cases "delayFrame st f n")
  have s1: "st1 = snd (delayFrame st f n)" using d by simp
  obtain outs st2 where l: "delayLoop st1 fs n = (outs, st2)" by (cases "delayLoop st1 fs n")
  have "snd (delayLoop st (f # fs) n) = snd (delayLoop st1 fs n)"
    using d l by simp
  then show ?case
    using Cons.IH[of st1] by (simp add: s1 delayFrame_accumulator)
qed

lemma handoff_busy:
  assumes "hasNewBuffer st"
  shows "audioBuffer (handoff st n) = audioBuffer st"
    and "bufferWritePos (handoff st n) = bufferWritePos st"
    and "hasNewBuffer (handoff st n)"
    and "transcriptionInterval (handoff st n) = transcriptionInterval st + int n"
  using assms by (simp_all add: handoff_def Let_def)

lemma callback_state:
  "snd (audioDeviceIOCallbackWithContext st inp numOut n)
     = (snd (delayLoop (beforeDelayLoop st inp n) (framesOf inp n) numOut))
         \<lparr>streamTime :=
            streamTime (snd (delayLoop (beforeDelayLoop st inp n) (framesOf inp n) numOut))
            + real n / real_of_int
                (sampleRate (snd (delayLoop (beforeDelayLoop st inp n) (framesOf inp n) numOut)))\<rparr>"
  by (simp add: audioDeviceIOCallbackWithContext_def split: prod.splits)

lemma callback_output:
  "fst (audioDeviceIOCallbackWithContext st inp numOut n)
     = fst (delayLoop (beforeDelayLoop st inp n) (framesOf inp n) numOut)"
  by (simp add: audioDeviceIOCallbackWithContext_def split: prod.splits)

subsection \<open>The accumulator while a chunk is waiting\<close>

lemma callback_busy_all:
  assumes "hasNewBuffer st" and "inputChannelData \<noteq> []"
    and "0 \<le> bufferWritePos st" and "bufferWritePos st \<le> int (length (audioBuffer st))"
  shows "audioBuffer (snd (audioDeviceIOCallbackWithContext st inputChannelData numOut numSamples))
           = take (nat (bufferWritePos st)) (audioBuffer st)
             @ take (length (audioBuffer st) - nat (bufferWritePos st))
                    (monoSamples inputChannelData numSamples)
             @ drop (nat (bufferWritePos st) + numSamples) (audioBuffer st)
       \<and> bufferWritePos (snd (audioDeviceIOCallbackWithContext st inputChannelData numOut numSamples))
           = min (bufferWritePos st + int numSamples) (int (length (audioBuffer st)))
       \<and> hasNewBuffer (snd (audioDeviceIOCallbackWithContext st inputChannelData numOut numSamples))
       \<and> transcriptionInterval
            (snd (audioDeviceIOCallbackWithContext st inputChannelData numOut numSamples))
           = transcriptionInterval st + int numSamples"
proof -
  let ?ms = "monoSamples inputChannelData numSamples"
  let ?st0 = "measureInputLevel st inputChannelData numSamples"
  let ?st1 = "identifySongAttempt (accumulateInput ?st0 inputChannelData numSamples)"
  let ?st3 = "beforeDelayLoop st inputChannelData numSamples"
  have lm: "length ?ms = numSamples" by (simp add: monoSamples_def)
  have a1: "audioBuffer ?st1 = fst (accumulate (audioBuffer st) (bufferWritePos st) ?ms)"
    and p1: "bufferWritePos ?st1 = snd (accumulate (audioBuffer st) (bufferWritePos st) ?ms)"
    using assms(2)
    by (simp_all add: identifySongAttempt_accumulator accumulateInput_def
                      measureInputLevel_accumulator split: prod.splits)
  have h1: "hasNewBuffer ?st1" and t1: "transcriptionInterval ?st1 = transcriptionInterval st"
    using assms(1)
    by (simp_all add: identifySongAttempt_accumulator accumulateInput_fields
                      measureInputLevel_accumulator)
  have s3: "?st3 = monitorBufferHealth (handoff ?st1 numSamples)"
    by (simp add: beforeDelayLoop_def Let_def)
  show ?thesis
    unfolding callback_state s3
    using delayLoop_accumulator[of "monitorBufferHealth (handoff ?st1 numSamples)"
            "framesOf inputChannelData numSamples" numOut]
          handoff_busy[OF h1, of numSamples]
          accumulate_eq[OF assms(3,4), of ?ms] accumulate_pos[OF assms(3,4), of ?ms]
    by (simp add: monitorBufferHealth_accumulator a1 p1 lm t1)
qed

lemma callback_busy_accumulator:
  assumes "hasNewBuffer st" and "inputChannelData \<noteq> []"
    and "0 \<le> bufferWritePos st" and "bufferWritePos st \<le> int (length (audioBuffer st))"
  shows "audioBuffer (snd (audioDeviceIOCallbackWithContext st inputChannelData numOut numSamples))
           = take (nat (bufferWritePos st)) (audioBuffer st)
             @ take (length (audioBuffer st) - nat (bufferWritePos st))
                    (monoSamples inputChannelData numSamples)
             @ drop (nat (bufferWritePos st) + numSamples) (audioBuffer st)"
    and "bufferWritePos (snd (audioDeviceIOCallbackWithContext st inputChannelData numOut numSamples))
           = min (bufferWritePos st + int numSamples) (int (length (audioBuffer st)))"
  using callback_busy_all[OF assms] by simp_all

lemma startedEngine_accumulator:
  "audioBuffer (startedEngine 48000 2 3 Mute recognition mediaInfo) = replicate 96000 0"
  by (simp add: startedEngine_def trunc_int_def)

lemma mono_half: "monoSamples [[1 / 2], [1 / 2]] 1 = [1 / 2]"
  by (simp add: monoSamples_def)

text \<open>
  C3, as stated, fails once the accumulator is full: with a chunk waiting for the worker
  and \<^verbatim>\<open>bufferWritePos\<close> at the 96000 samples of the accumulator, a callback with one
  frame of 0.5 on both channels leaves the accumulator and \<^verbatim>\<open>bufferWritePos\<close> as they
  were; the sample is in no slot of the accumulator.
\<close>

theorem callback_accumulates_while_busy_counterexample:
  "hasNewBuffer busy_full_engine
   \<and> monoSamples [[1 / 2], [1 / 2]] 1 = [1 / 2]
   \<and> audioBuffer (snd (audioDeviceIOCallbackWithContext busy_full_engine [[1 / 2], [1 / 2]] 2 1))
       = audioBuffer busy_full_engine
   \<and> 1 / 2 \<notin> set (audioBuffer
        (snd (audioDeviceIOCallbackWithContext busy_full_engine [[1 / 2], [1 / 2]] 2 1)))
   \<and> bufferWritePos (snd (audioDeviceIOCallbackWithContext busy_full_engine [[1 / 2], [1 / 2]] 2 1))
       = bufferWritePos busy_full_engine"
proof -
  have h: "hasNewBuffer busy_full_engine" by (simp add: busy_full_engine_def)
  have ab: "audioBuffer busy_full_engine = replicate 96000 0"
    by (simp add: busy_full_engine_def startedEngine_accumulator)
  have p: "bufferWritePos busy_full_engine = 96000" by (simp add: busy_full_engine_def)
  have a: "audioBuffer (snd (audioDeviceIOCallbackWithContext busy_full_engine [[1 / 2], [1 / 2]] 2 1))
             = replicate 96000 0"
    using callback_busy_accumulator(1)[OF h, of "[[1 / 2], [1 / 2]]" 2 1]
    by (simp add: ab p)
  have b: "bufferWritePos (snd (audioDeviceIOCallbackWithContext busy_full_engine [[1 / 2], [1 / 2]] 2 1))
             = 96000"
    using callback_busy_accumulator(2)[OF h, of "[[1 / 2], [1 / 2]]" 2 1]
    by (simp add: ab p)
  show ?thesis
    unfolding a b using h mono_half by (simp add: ab p)
qed


text \<open>
  C3, as amended. While a chunk is waiting for the worker (\<^verbatim>\<open>hasNewBuffer\<close> set), a
  callback does not hand off; it stores the mono downmix of its input in the accumulator
  from \<^verbatim>\<open>bufferWritePos\<close> on while there is room, and drops the samples that arrive once
  \<^verbatim>\<open>bufferWritePos\<close> has reached the accumulator's size (one chunk);
  \<^verbatim>\<open>transcriptionInterval\<close> counts every sample.
\<close>

theorem callback_accumulates_while_busy:
  assumes "hasNewBuffer st" and "inputChannelData \<noteq> []"
    and "0 \<le> bufferWritePos st" and "bufferWritePos st \<le> int (length (audioBuffer st))"
  shows "audioBuffer (snd (audioDeviceIOCallbackWithContext st inputChannelData numOut numSamples))
           = take (nat (bufferWritePos st)) (audioBuffer st)
             @ take (length (audioBuffer st) - nat (bufferWritePos st))
                    (monoSamples inputChannelData numSamples)
             @ drop (nat (bufferWritePos st) + numSamples) (audioBuffer st)
       \<and> bufferWritePos (snd (audioDeviceIOCallbackWithContext st inputChannelData numOut numSamples))
           = min (bufferWritePos st + int numSamples) (int (length (audioBuffer st)))
       \<and> hasNewBuffer (snd (audioDeviceIOCallbackWithContext st inputChannelData numOut numSamples))
       \<and> transcriptionInterval
            (snd (audioDeviceIOCallbackWithContext st inputChannelData numOut numSamples))
           = transcriptionInterval st + int numSamples"
  by (rule callback_busy_all[OF assms])

text \<open>
  C3 with one slot left: of two frames the first is stored and the second dropped.
\<close>

theorem callback_accumulates_while_busy_witness:
  "hasNewBuffer busy_engine
   \<and> bufferWritePos busy_engine = 95999
   \<and> length (audioBuffer busy_engine) = 96000
   \<and> monoSamples [[1 / 2, 1 / 4], [1 / 2, 1 / 4]] 2 = [1 / 2, 1 / 4]
   \<and> audioBuffer (snd (audioDeviceIOCallbackWithContext busy_engine
                          [[1 / 2, 1 / 4], [1 / 2, 1 / 4]] 2 2))
       = replicate 95999 0 @ [1 / 2]
   \<and> bufferWritePos (snd (audioDeviceIOCallbackWithContext busy_engine
                             [[1 / 2, 1 / 4], [1 / 2, 1 / 4]] 2 2)) = 96000
   \<and> transcriptionInterval (snd (audioDeviceIOCallbackWithContext busy_engine
                             [[1 / 2, 1 / 4], [1 / 2, 1 / 4]] 2 2)) = 96001"
proof -
  have h: "hasNewBuffer busy_engine" by (simp add: busy_engine_def)
  have ab: "audioBuffer busy_engine = replicate 96000 0"
    by (simp add: busy_engine_def startedEngine_accumulator)
  have p: "bufferWritePos busy_engine = 95999" by (simp add: busy_engine_def)
  have ti: "transcriptionInterval busy_engine = 95999" by (simp add: busy_engine_def)
  have m: "monoSamples [[1 / 2, 1 / 4], [1 / 2, 1 / 4]] 2 = [1 / 2, 1 / 4]"
    by (simp add: monoSamples_def upt_rec)
  have ne: "[[1 / 2, 1 / 4], [1 / 2, 1 / 4 :: real]] \<noteq> []" by simp
  have b0: "0 \<le> bufferWritePos busy_engine"
    and b1: "bufferWritePos busy_engine \<le> int (length (audioBuffer busy_engine))"
    by (simp_all add: ab p)
  note t = callback_accumulates_while_busy[OF h ne b0 b1, of 2 2]
  have a: "audioBuffer (snd (audioDeviceIOCallbackWithContext busy_engine
                          [[1 / 2, 1 / 4], [1 / 2, 1 / 4]] 2 2))
             = replicate 95999 0 @ [1 / 2]"
    using t by (simp add: ab p m)
  have b: "bufferWritePos (snd (audioDeviceIOCallbackWithContext busy_engine
                             [[1 / 2, 1 / 4], [1 / 2, 1 / 4]] 2 2)) = 96000"
    using t by (simp add: ab p)
  have c: "transcriptionInterval (snd (audioDeviceIOCallbackWithContext busy_engine
                             [[1 / 2, 1 / 4], [1 / 2, 1 / 4]] 2 2)) = 96001"
    using t by (simp add: ti)
  have l: "length (audioBuffer busy_engine) = 96000" by (simp add: ab)
  show ?thesis using h p l m a b c by (intro conjI)
qed

subsection \<open>The monitor and the skipped rewrite\<close>


lemma monitorBufferHealth_before_playback:
  assumes "\<not> playbackStarted st"
  shows "bufferUnderrun (monitorBufferHealth st) = bufferUnderrun st"
  using assms by (simp add: monitorBufferHealth_def Let_def)

lemma recordCensorshipEvent_last:
  "last (censorshipHistory (recordCensorshipEvent st w t c m multi))
     = \<lparr>ev_word = w, ev_timestamp = t, ev_wasCensored = c, ev_mode = m\<rparr>"
  by (cases "censorshipHistory st") (simp_all add: recordCensorshipEvent_def Let_def)

lemma processProfanity_skipped:
  assumes "bufferUnderrun st"
  shows "delayBuffer (processProfanity st w captureTime ps pe multi) = delayBuffer st"
    and "totalWordsSkipped (processProfanity st w captureTime ps pe multi)
           = totalWordsSkipped st + 1"
    and "totalWordsCensored (processProfanity st w captureTime ps pe multi)
           = totalWordsCensored st"
    and "ev_mode (last (censorshipHistory (processProfanity st w captureTime ps pe multi)))
           = ''SKIPPED''"
    and "\<not> ev_wasCensored
             (last (censorshipHistory (processProfanity st w captureTime ps pe multi)))"
proof -
  have p: "processProfanity st w captureTime ps pe multi
             = recordCensorshipEvent st w ps False ''SKIPPED'' multi"
    using assms by (simp add: processProfanity_def)
  show "delayBuffer (processProfanity st w captureTime ps pe multi) = delayBuffer st"
    by (simp add: p recordCensorshipEvent_def Let_def)
  show "totalWordsSkipped (processProfanity st w captureTime ps pe multi)
           = totalWordsSkipped st + 1"
    by (simp add: p recordCensorshipEvent_def Let_def)
  show "totalWordsCensored (processProfanity st w captureTime ps pe multi)
           = totalWordsCensored st"
    by (simp add: p recordCensorshipEvent_def Let_def)
  show "ev_mode (last (censorshipHistory (processProfanity st w captureTime ps pe multi)))
           = ''SKIPPED''"
    unfolding p recordCensorshipEvent_last by simp
  show "\<not> ev_wasCensored
             (last (censorshipHistory (processProfanity st w captureTime ps pe multi)))"
    unfolding p recordCensorshipEvent_last by simp
qed

section \<open>Facts about muting\<close>

lemma fold_scale_length:
  "length (fold (\<lambda>i c. let idx = s0 + i
                 in if 0 \<le> idx \<and> idx < int (length c)
                    then c[nat idx := c ! nat idx * g i] else c) is c) = length c"
  by (induction "is" arbitrary: c) (simp_all add: Let_def)

lemma fold_scale_nth:
  assumes "distinct is" and "k < length c"
  shows "fold (\<lambda>i c. let idx = s0 + i
                 in if 0 \<le> idx \<and> idx < int (length c)
                    then c[nat idx := c ! nat idx * g i] else c) is c ! k
         = (if int k - s0 \<in> set is then c ! k * g (int k - s0) else c ! k)"
  using assms
proof (induction "is" arbitrary: c)
  case Nil
  then show ?case by simp
next
  case (Cons i "is")
  let ?f = "\<lambda>i c. let idx = s0 + i
                 in if 0 \<le> idx \<and> idx < int (length c)
                    then c[nat idx := c ! nat idx * g i] else c"
  let ?c1 = "?f i c"
  have l1: "length ?c1 = length c" by (simp add: Let_def)
  have d: "distinct is" and ni: "i \<notin> set is" using Cons.prems(1) by simp_all
  have ih: "fold ?f is ?c1 ! k
              = (if int k - s0 \<in> set is then ?c1 ! k * g (int k - s0) else ?c1 ! k)"
    using Cons.IH[OF d, of ?c1] Cons.prems(2) l1 by simp
  have c1k: "?c1 ! k = (if int k - s0 = i then c ! k * g i else c ! k)"
  proof (cases "int k - s0 = i")
    case True
    then have e: "s0 + i = int k" by simp
    have "c[k := c ! k * g i] ! k = c ! k * g i"
      using Cons.prems(2) by simp
    then show ?thesis using Cons.prems(2) True unfolding Let_def e by simp
  next
    case False
    then have "nat (s0 + i) \<noteq> k \<or> \<not> (0 \<le> s0 + i)" by auto
    then show ?thesis using False by (auto simp: Let_def)
  qed
  show ?case
    using ih c1k ni by auto
qed

lemma fold_zero_nth:
  assumes "k < length c"
  shows "fold (\<lambda>i c. if 0 \<le> i then c[nat i := 0] else c) is c ! k
         = (if int k \<in> set is then 0 else c ! k)"
  using assms
proof (induction "is" arbitrary: c)
  case Nil
  then show ?case by simp
next
  case (Cons i "is")
  let ?c1 = "if 0 \<le> i then c[nat i := 0] else c"
  have l1: "length ?c1 = length c" by simp
  have "fold (\<lambda>i c. if 0 \<le> i then c[nat i := 0] else c) is ?c1 ! k
          = (if int k \<in> set is then 0 else ?c1 ! k)"
    using Cons.IH[of ?c1] Cons.prems l1 by simp
  moreover have "?c1 ! k = (if int k = i then 0 else c ! k)"
    using Cons.prems by (auto simp: nth_list_update)
  ultimately show ?case by auto
qed

lemma fold_zero_length:
  "length (fold (\<lambda>i c. if 0 \<le> i then c[nat i := 0] else c) is c) = length c"
  by (induction "is" arbitrary: c) simp_all

lemma applyFadeOut_channel_nth:
  assumes "k < length c"
  shows "applyFadeOut_channel s0 len c ! k
         = (if s0 \<le> int k \<and> int k < s0 + len
            then c ! k * (1 - real_of_int (int k - s0) / real_of_int len) else c ! k)"
  unfolding applyFadeOut_channel_def
  using fold_scale_nth[of "[0 .. len - 1]" k c s0
          "\<lambda>i. 1 - real_of_int i / real_of_int len", OF _ assms]
  by auto

lemma applyFadeIn_channel_nth:
  assumes "k < length c"
  shows "applyFadeIn_channel s0 len c ! k
         = (if s0 \<le> int k \<and> int k < s0 + len
            then c ! k * (real_of_int (int k - s0) / real_of_int len) else c ! k)"
  unfolding applyFadeIn_channel_def
  using fold_scale_nth[of "[0 .. len - 1]" k c s0
          "\<lambda>i. real_of_int i / real_of_int len", OF _ assms]
  by auto

lemma fade_channel_length:
  "length (applyFadeOut_channel s0 len c) = length c"
  "length (applyFadeIn_channel s0 len c) = length c"
  unfolding applyFadeOut_channel_def applyFadeIn_channel_def
  by (rule fold_scale_length)+

lemma zeroMiddle_channel_length: "length (zeroMiddle_channel zs ze c) = length c"
  unfolding zeroMiddle_channel_def by (rule fold_zero_length)

lemma takeWhile_upto_less:
  "takeWhile (\<lambda>i. i < n) [a .. b] = [a .. min b (n - 1)]"
proof (induction a b rule: upto.induct)
  case (1 i j)
  show ?case
  proof (cases "i \<le> j")
    case True
    then have u: "[i .. j] = i # [i + 1 .. j]" by (simp add: upto_rec1)
    show ?thesis
    proof (cases "i < n")
      case lt: True
      have "[i .. min j (n - 1)] = i # [i + 1 .. min j (n - 1)]"
        using True lt by (simp add: upto_rec1)
      then show ?thesis using u lt "1.IH"[OF True] by simp
    next
      case False
      then show ?thesis using u by simp
    qed
  next
    case False
    then show ?thesis by simp
  qed
qed

lemma zeroMiddle_channel_nth:
  assumes "k < length c"
  shows "zeroMiddle_channel zs ze c ! k = (if zs \<le> int k \<and> int k < ze then 0 else c ! k)"
  unfolding zeroMiddle_channel_def takeWhile_upto_less
  using fold_zero_nth[OF assms, of "[zs .. min (ze - 1) (int (length c) - 1)]"] assms
  by auto

lemma muteSamples_nth:
  assumes "ch < length buffer" and "k < length (buffer ! ch)"
    and "0 < end_sample - start_sample"
    and "2 * calculateFadeSamples sample_rate \<le> end_sample - start_sample"
    and "0 \<le> calculateFadeSamples sample_rate"
  shows "muteSamples buffer start_sample end_sample sample_rate ! ch ! k =
           (if start_sample \<le> int k \<and> int k < start_sample + calculateFadeSamples sample_rate
            then buffer ! ch ! k
                 * (1 - real_of_int (int k - start_sample)
                        / real_of_int (calculateFadeSamples sample_rate))
            else if start_sample + calculateFadeSamples sample_rate \<le> int k
                    \<and> int k < end_sample - calculateFadeSamples sample_rate
            then 0
            else if end_sample - calculateFadeSamples sample_rate \<le> int k \<and> int k < end_sample
            then buffer ! ch ! k
                 * (real_of_int (int k - (end_sample - calculateFadeSamples sample_rate))
                    / real_of_int (calculateFadeSamples sample_rate))
            else buffer ! ch ! k)"
proof -
  let ?F = "calculateFadeSamples sample_rate"
  let ?c = "buffer ! ch"
  let ?c1 = "applyFadeOut_channel start_sample ?F ?c"
  let ?c2 = "if end_sample - ?F > start_sample + ?F
             then zeroMiddle_channel (start_sample + ?F) (end_sample - ?F) ?c1 else ?c1"
  have l1: "k < length ?c1" using assms(2) by (simp add: fade_channel_length)
  have l2: "k < length ?c2" using l1 by (simp add: zeroMiddle_channel_length)
  have run: "muteSamples buffer start_sample end_sample sample_rate ! ch
               = applyFadeIn_channel (end_sample - ?F) ?F ?c2"
    using assms(1,3)
    by (simp add: muteSamples_def Let_def applyFadeIn_def applyFadeOut_def)
  have c1: "?c1 ! k = (if start_sample \<le> int k \<and> int k < start_sample + ?F
                        then ?c ! k * (1 - real_of_int (int k - start_sample) / real_of_int ?F)
                        else ?c ! k)"
    by (rule applyFadeOut_channel_nth[OF assms(2)])
  have c2: "?c2 ! k = (if start_sample + ?F \<le> int k \<and> int k < end_sample - ?F then 0
                        else ?c1 ! k)"
    using zeroMiddle_channel_nth[OF l1, of "start_sample + ?F" "end_sample - ?F"] by auto
  have c3: "applyFadeIn_channel (end_sample - ?F) ?F ?c2 ! k
              = (if end_sample - ?F \<le> int k \<and> int k < end_sample
                 then ?c2 ! k * (real_of_int (int k - (end_sample - ?F)) / real_of_int ?F)
                 else ?c2 ! k)"
    using applyFadeIn_channel_nth[OF l2, of "end_sample - ?F" ?F] by simp
  show ?thesis
    unfolding run c3 c2 c1 using assms(4,5) by auto
qed

lemma fold_zero_at_length:
  "length (fold (\<lambda>i c. c[p i := 0]) is c) = length c"
  by (induction "is" arbitrary: c) simp_all

lemma fold_zero_at_nth:
  assumes "k < length c"
  shows "fold (\<lambda>i c. c[p i := (0::real)]) is c ! k = (if k \<in> p ` set is then 0 else c ! k)"
  using assms
proof (induction "is" arbitrary: c)
  case Nil
  then show ?case by simp
next
  case (Cons i "is")
  have "fold (\<lambda>i c. c[p i := 0]) is (c[p i := 0]) ! k
          = (if k \<in> p ` set is then 0 else (c[p i := 0]) ! k)"
    using Cons.IH[of "c[p i := 0]"] Cons.prems by simp
  then show ?case using Cons.prems by (auto simp: nth_list_update)
qed

lemma muteChannel_length:
  "length (muteChannel N chunkStartPos startSample endSample channel) = length channel"
  unfolding muteChannel_def by (rule fold_zero_at_length)

lemma muteChannel_nth:
  assumes "k < length channel"
  shows "muteChannel N chunkStartPos startSample endSample channel ! k
         = (if k \<in> (\<lambda>i. nat ((chunkStartPos + i) mod N)) ` {startSample ..< endSample}
            then 0 else channel ! k)"
proof -
  have s: "set [startSample .. endSample - 1] = {startSample ..< endSample}" by auto
  show ?thesis
    unfolding muteChannel_def
    using fold_zero_at_nth[OF assms, of "\<lambda>i. nat ((chunkStartPos + i) mod N)"
                                        "[startSample .. endSample - 1]"]
    unfolding s by simp
qed

lemma muteChannel_covered:
  assumes "0 < N" and "length channel = nat N"
    and "startSample \<le> i" and "i < endSample"
  shows "muteChannel N chunkStartPos startSample endSample channel
           ! nat ((chunkStartPos + i) mod N) = 0"
proof -
  have "nat ((chunkStartPos + i) mod N) < length channel"
    using assms(1,2) by (simp add: nat_less_iff)
  then show ?thesis
    using muteChannel_nth[of "nat ((chunkStartPos + i) mod N)" channel N chunkStartPos
                             startSample endSample] assms(3,4)
    by auto
qed

lemma calculateFadeSamples_nonneg: "0 \<le> sample_rate \<Longrightarrow> 0 \<le> calculateFadeSamples sample_rate"
  by (simp add: calculateFadeSamples_def trunc_int_def)

lemma calculateFadeSamples_48000: "calculateFadeSamples 48000 = 240"
  by (simp add: calculateFadeSamples_def trunc_int_def)

text \<open>
  C4, as amended. For an interval of at least two fade windows, \<^verbatim>\<open>muteSamples\<close>
  multiplies the leading window by the gains \<open>1 - i / F\<close>, which fall from 1, writes zeros
  across the interior and multiplies the trailing window by the gains \<open>i / F\<close>, which rise
  from 0 (\<open>F\<close> is \<^verbatim>\<open>calculateFadeSamples\<close>, 5 ms); samples outside the interval keep their
  values. The mute of \<^verbatim>\<open>processTranscription\<close> writes zero at every position of its
  interval, with no fade.
\<close>

theorem mute_fades_and_zeros:
  "(ch < length buffer \<and> k < length (buffer ! ch) \<and> 0 \<le> sample_rate
      \<and> 0 < end_sample - start_sample
      \<and> 2 * calculateFadeSamples sample_rate \<le> end_sample - start_sample
    \<longrightarrow> muteSamples buffer start_sample end_sample sample_rate ! ch ! k =
           (if start_sample \<le> int k \<and> int k < start_sample + calculateFadeSamples sample_rate
            then buffer ! ch ! k
                 * (1 - real_of_int (int k - start_sample)
                        / real_of_int (calculateFadeSamples sample_rate))
            else if start_sample + calculateFadeSamples sample_rate \<le> int k
                    \<and> int k < end_sample - calculateFadeSamples sample_rate
            then 0
            else if end_sample - calculateFadeSamples sample_rate \<le> int k \<and> int k < end_sample
            then buffer ! ch ! k
                 * (real_of_int (int k - (end_sample - calculateFadeSamples sample_rate))
                    / real_of_int (calculateFadeSamples sample_rate))
            else buffer ! ch ! k))
   \<and> (0 < N \<and> length channel = nat N \<and> startSample \<le> i \<and> i < endSample
      \<longrightarrow> muteChannel N chunkStartPos startSample endSample channel
             ! nat ((chunkStartPos + i) mod N) = 0)"
  using muteSamples_nth[of ch buffer k end_sample start_sample sample_rate]
        calculateFadeSamples_nonneg[of sample_rate]
        muteChannel_covered[of N channel startSample i endSample chunkStartPos]
  by blast

lemma ones_mute_nth:
  assumes "k < 1000"
  shows "muteSamples [replicate 1000 1] 0 1000 48000 ! 0 ! k =
           (if int k < 240 then 1 - real_of_int (int k) / 240
            else if int k < 760 then 0
            else real_of_int (int k - 760) / 240)"
  using muteSamples_nth[of 0 "[replicate 1000 1]" k 1000 0 48000] assms
  by (simp add: calculateFadeSamples_48000)

text \<open>
  C4, as stated, fails: on a buffer of ones muted over its 1000 samples at 48 kHz the
  leading fade window starts with 1 and 239/240, so the magnitudes fall there although the
  original samples are not zero; and the mute of \<^verbatim>\<open>processTranscription\<close> writes zero at
  the first sample of the interval, not a fade.
\<close>

theorem mute_fades_and_zeros_counterexample:
  "calculateFadeSamples 48000 = 240
   \<and> muteSamples [replicate 1000 1] 0 1000 48000 ! 0 ! 0 = 1
   \<and> muteSamples [replicate 1000 1] 0 1000 48000 ! 0 ! 1 = 239 / 240
   \<and> \<bar>muteSamples [replicate 1000 1] 0 1000 48000 ! 0 ! 1\<bar>
       < \<bar>muteSamples [replicate 1000 1] 0 1000 48000 ! 0 ! 0\<bar>
   \<and> muteChannel 1000 0 0 1000 (replicate 1000 1) ! 0 = 0"
proof -
  have a: "muteSamples [replicate 1000 1] 0 1000 48000 ! 0 ! 0 = 1"
    using ones_mute_nth[of 0] by simp
  have b: "muteSamples [replicate 1000 1] 0 1000 48000 ! 0 ! 1 = 239 / 240"
    using ones_mute_nth[of 1] by simp
  have c: "muteChannel 1000 0 0 1000 (replicate 1000 1) ! 0 = 0"
    using muteChannel_covered[of 1000 "replicate 1000 1" 0 0 1000 0] by simp
  show ?thesis
    unfolding a b using c calculateFadeSamples_48000 by simp
qed

text \<open>
  C4 on the same buffer: a quarter into the leading window, in the interior, and three
  quarters into the trailing window; and the middle of an interval muted in the delay
  buffer.
\<close>

theorem mute_fades_and_zeros_witness:
  "(0::nat) < length [replicate 1000 (1::real)] \<and> (0::int) \<le> 48000
   \<and> 2 * calculateFadeSamples 48000 \<le> 1000 - 0
   \<and> muteSamples [replicate 1000 1] 0 1000 48000 ! 0 ! 60 = 3 / 4
   \<and> muteSamples [replicate 1000 1] 0 1000 48000 ! 0 ! 500 = 0
   \<and> muteSamples [replicate 1000 1] 0 1000 48000 ! 0 ! 940 = 3 / 4
   \<and> muteChannel 1000 0 0 1000 (replicate 1000 1) ! nat ((0 + 500) mod 1000) = 0"
proof -
  have f: "2 * calculateFadeSamples 48000 \<le> 1000 - 0"
    by (simp add: calculateFadeSamples_48000)
  note t = mute_fades_and_zeros[of 0 "[replicate 1000 1]" _ 48000 1000 0 1000 "replicate 1000 1" 0 500 1000 0]
  have a: "muteSamples [replicate 1000 1] 0 1000 48000 ! 0 ! 60 = 3 / 4"
    using t[of 60] by (simp add: calculateFadeSamples_48000)
  have b: "muteSamples [replicate 1000 1] 0 1000 48000 ! 0 ! 500 = 0"
    using t[of 500] by (simp add: calculateFadeSamples_48000)
  have c: "muteSamples [replicate 1000 1] 0 1000 48000 ! 0 ! 940 = 3 / 4"
    using t[of 940] by (simp add: calculateFadeSamples_48000)
  have d: "muteChannel 1000 0 0 1000 (replicate 1000 1) ! nat ((0 + 500) mod 1000) = 0"
    using t[of 0] by simp
  show ?thesis
    using f a b c d by simp
qed

section \<open>Facts about the timestamp refiner\<close>

lemma burst_length: "length burst_audio = 480"
  by (simp add: burst_audio_def)

lemma burst_nth: "k < 480 \<Longrightarrow> burst_audio ! k = (if even k then 1 / 2 else - (1 / 2))"
  by (simp add: burst_audio_def)

lemma burst_sumSquares: "sumSquares burst_audio 0 480 = 120"
proof -
  have "map (\<lambda>sample. sample * sample) burst_audio = map (\<lambda>i. 1 / 4 :: real) [0 ..< 480]"
    by (simp add: burst_audio_def)
  then show ?thesis
    by (simp add: sumSquares_def burst_length sum_list_triv)
qed

lemma burst_crossings: "countCrossings burst_audio 0 480 = 479"
proof -
  let ?P = "\<lambda>i. (burst_audio ! nat i \<ge> 0 \<and> burst_audio ! nat (i - 1) < 0)
                \<or> (burst_audio ! nat i < 0 \<and> burst_audio ! nat (i - 1) \<ge> 0)"
  have "\<forall>i \<in> set [1 .. 479]. ?P i"
  proof
    fix i :: int assume "i \<in> set [1 .. 479]"
    then have i: "1 \<le> i" "i \<le> 479" by auto
    then have a: "nat i < 480" and b: "nat (i - 1) < 480" by auto
    have c: "even (nat (i - 1)) \<longleftrightarrow> odd (nat i)"
      using i by (simp add: even_nat_iff)
    show "?P i"
      unfolding burst_nth[OF a] burst_nth[OF b] c by simp
  qed
  then have "filter ?P [1 .. 479] = [1 .. 479]"
    by (simp only: filter_True)
  then show ?thesis
    by (simp add: countCrossings_def)
qed

lemma burst_isSpeech: "isSpeechWindow burst_audio 0"
proof -
  have e: "calculateEnergy burst_audio 0 480 = 1 / 2"
    by (simp add: calculateEnergy_def burst_length burst_sumSquares real_sqrt_divide)
  have z: "calculateZeroCrossing burst_audio 0 480 = 479 / 480"
    by (simp add: calculateZeroCrossing_def burst_length burst_crossings)
  show ?thesis
    by (simp add: isSpeechWindow_def WINDOW_SIZE_def e z ENERGY_THRESHOLD_def ZC_THRESHOLD_def)
qed


lemma burst_regionLoop: "regionLoop burst_audio 480 0 False 0 [] = (True, 0, [])"
proof -
  have "regionLoop burst_audio 480 0 False 0 [] = regionLoop burst_audio 480 480 True 0 []"
    by (subst regionLoop.simps) (simp add: burst_isSpeech WINDOW_SIZE_def)
  also have "\<dots> = (True, 0, [])"
    by (subst regionLoop.simps) simp
  finally show ?thesis .
qed

lemma boundaryLoop_done: "\<not> i < searchEnd \<Longrightarrow>
    boundaryLoop audio searchEnd findStart i bestScore bestSample = bestSample"
  by (subst boundaryLoop.simps) simp

lemma burst_boundaries:
  "findBestBoundary burst_audio 0 (WINDOW_SIZE * 4) 48000 True = 0"
  "findBestBoundary burst_audio 480 (WINDOW_SIZE * 4) 48000 False = 1 / 100"
  by (simp_all add: findBestBoundary_def burst_length WINDOW_SIZE_def boundaryLoop_done)

lemma burst_search: "searchForSpeech burst_audio 0 (3 / 10) 48000 = (0, 1 / 100)"
  by (simp add: searchForSpeech_def Let_def trunc_int_def burst_length SEARCH_RADIUS_def
                burst_regionLoop INT_MAX_def burst_boundaries MIN_WORD_DURATION_def
                MAX_WORD_DURATION_def)


lemma regionLoop_no_speech:
  assumes "\<And>j. \<not> isSpeechWindow audio j"
  shows "regionLoop audio searchEnd i False regionStart regions = (False, regionStart, regions)"
proof (induction "nat (searchEnd - i)" arbitrary: i rule: less_induct)
  case less
  show ?case
  proof (cases "i < searchEnd")
    case True
    have "nat (searchEnd - (i + WINDOW_SIZE)) < nat (searchEnd - i)"
      using True by (simp add: WINDOW_SIZE_def)
    from less[OF this] show ?thesis
      using True assms by (subst regionLoop.simps) simp
  next
    case False
    then show ?thesis by (subst regionLoop.simps) simp
  qed
qed

lemma searchForSpeech_no_speech:
  assumes "\<And>j. \<not> isSpeechWindow audio j"
  shows "searchForSpeech audio whisperStart whisperEnd sample_rate = (whisperStart, whisperEnd)"
  by (simp add: searchForSpeech_def Let_def regionLoop_no_speech[OF assms])

lemma silence_no_speech: "\<not> isSpeechWindow (replicate n 0) j"
proof -
  have "sumSquares (replicate n 0) j WINDOW_SIZE = 0"
    by (simp add: sumSquares_def sum_list_replicate)
  then have "calculateEnergy (replicate n 0) j WINDOW_SIZE = 0"
    by (simp add: calculateEnergy_def)
  then show ?thesis
    by (simp add: isSpeechWindow_def ENERGY_THRESHOLD_def)
qed

lemma refineWordTimestamp_silence:
  "refineWordTimestamp w (replicate n 0) sample_rate = w"
  by (simp add: refineWordTimestamp_def searchForSpeech_no_speech[OF silence_no_speech])

lemma boundaryLoop_range:
  "boundaryLoop audio searchEnd findStart i bestScore bestSample = bestSample
   \<or> (i \<le> boundaryLoop audio searchEnd findStart i bestScore bestSample
      \<and> boundaryLoop audio searchEnd findStart i bestScore bestSample < searchEnd)"
proof (induction "nat (searchEnd - i)" arbitrary: i bestScore bestSample rule: less_induct)
  case less
  show ?case
  proof (cases "i < searchEnd")
    case False
    then show ?thesis by (simp add: boundaryLoop_done)
  next
    case True
    have m: "nat (searchEnd - (i + WINDOW_SIZE div 4)) < nat (searchEnd - i)"
      using True by (simp add: WINDOW_SIZE_def)
    note ih = less[OF m]
    let ?score = "if findStart
                  then calculateEnergy audio i WINDOW_SIZE
                       - calculateEnergy audio (i - WINDOW_SIZE) WINDOW_SIZE
                  else calculateEnergy audio (i - WINDOW_SIZE) WINDOW_SIZE
                       - calculateEnergy audio i WINDOW_SIZE"
    have unf: "boundaryLoop audio searchEnd findStart i bestScore bestSample
                 = (if i < WINDOW_SIZE \<or> i + WINDOW_SIZE \<ge> int (length audio)
                    then boundaryLoop audio searchEnd findStart (i + WINDOW_SIZE div 4)
                           bestScore bestSample
                    else if ?score > bestScore
                            \<and> \<bar>calculateEnergy audio i WINDOW_SIZE
                                - calculateEnergy audio (i - WINDOW_SIZE) WINDOW_SIZE\<bar>
                              > ENERGY_THRESHOLD
                    then boundaryLoop audio searchEnd findStart (i + WINDOW_SIZE div 4) ?score i
                    else boundaryLoop audio searchEnd findStart (i + WINDOW_SIZE div 4)
                           bestScore bestSample)"
      by (subst boundaryLoop.simps) (simp add: True Let_def)
    have step: "boundaryLoop audio searchEnd findStart i bestScore bestSample
                  = boundaryLoop audio searchEnd findStart (i + WINDOW_SIZE div 4) bestScore bestSample
               \<or> boundaryLoop audio searchEnd findStart i bestScore bestSample
                  = boundaryLoop audio searchEnd findStart (i + WINDOW_SIZE div 4) ?score i"
      unfolding unf by presburger
    have w: "0 < WINDOW_SIZE div 4" by (simp add: WINDOW_SIZE_def)
    from step show ?thesis
    proof
      assume a: "boundaryLoop audio searchEnd findStart i bestScore bestSample
                  = boundaryLoop audio searchEnd findStart (i + WINDOW_SIZE div 4) bestScore bestSample"
      show ?thesis unfolding a using ih[where bestScore=bestScore and bestSample=bestSample] w by auto
    next
      assume a: "boundaryLoop audio searchEnd findStart i bestScore bestSample
                  = boundaryLoop audio searchEnd findStart (i + WINDOW_SIZE div 4) ?score i"
      show ?thesis unfolding a using ih[where bestScore="?score" and bestSample=i] w True by auto
    qed
  qed
qed

lemma findBestBoundary_start_le:
  assumes "0 < sample_rate"
  shows "findBestBoundary audio c r sample_rate True \<le> real_of_int c / real_of_int sample_rate"
proof -
  let ?e = "min (int (length audio)) (c + 0)"
  let ?b = "boundaryLoop audio ?e True (max 0 (c - r)) (- 1) c"
  have "?b \<le> c" using boundaryLoop_range[of audio ?e True "max 0 (c - r)" "- 1" c] by auto
  then show ?thesis
    using assms by (simp add: findBestBoundary_def Let_def divide_right_mono)
qed

lemma findBestBoundary_end_ge:
  assumes "0 < sample_rate"
  shows "real_of_int c / real_of_int sample_rate \<le> findBestBoundary audio c r sample_rate False"
proof -
  let ?e = "min (int (length audio)) (c + r)"
  let ?b = "boundaryLoop audio ?e False (max 0 (c - 0)) (- 1) c"
  have "c \<le> ?b" using boundaryLoop_range[of audio ?e False "max 0 (c - 0)" "- 1" c] by auto
  then show ?thesis
    using assms by (simp add: findBestBoundary_def Let_def divide_right_mono)
qed

lemma regionLoop_regions:
  assumes "\<forall>r \<in> set regions. fst r < snd r"
    and "inSpeech \<longrightarrow> regionStart < i \<and> regionStart < searchEnd"
  shows "(\<forall>r \<in> set (snd (snd (regionLoop audio searchEnd i inSpeech regionStart regions))).
            fst r < snd r)
       \<and> (fst (regionLoop audio searchEnd i inSpeech regionStart regions)
            \<longrightarrow> fst (snd (regionLoop audio searchEnd i inSpeech regionStart regions)) < searchEnd)"
  using assms
proof (induction "nat (searchEnd - i)" arbitrary: i inSpeech regionStart regions
       rule: less_induct)
  case less
  show ?case
  proof (cases "i < searchEnd")
    case False
    have e: "regionLoop audio searchEnd i inSpeech regionStart regions
               = (inSpeech, regionStart, regions)"
      by (subst regionLoop.simps) (simp add: False)
    show ?thesis unfolding e using less.prems by simp
  next
    case True
    have m: "nat (searchEnd - (i + WINDOW_SIZE)) < nat (searchEnd - i)"
      using True by (simp add: WINDOW_SIZE_def)
    have w: "0 < WINDOW_SIZE" by (simp add: WINDOW_SIZE_def)
    note ih = less.hyps[OF m]
    consider (enter) "isSpeechWindow audio i \<and> \<not> inSpeech"
      | (leave) "\<not> isSpeechWindow audio i \<and> inSpeech"
      | (stay) "\<not> (isSpeechWindow audio i \<and> \<not> inSpeech)"
               "\<not> (\<not> isSpeechWindow audio i \<and> inSpeech)"
      by blast
    then show ?thesis
    proof cases
      case enter
      have e: "regionLoop audio searchEnd i inSpeech regionStart regions
                = regionLoop audio searchEnd (i + WINDOW_SIZE) True i regions"
        using True enter by (subst regionLoop.simps) simp
      have p2: "True \<longrightarrow> i < i + WINDOW_SIZE \<and> i < searchEnd" using True w by simp
      show ?thesis unfolding e
        by (rule ih[where inSpeech=True and regionStart=i and regions=regions,
                    OF less.prems(1) p2])
    next
      case leave
      have e: "regionLoop audio searchEnd i inSpeech regionStart regions
                = regionLoop audio searchEnd (i + WINDOW_SIZE) False regionStart
                    (regions @ [(regionStart, i)])"
        using True leave by (subst regionLoop.simps) simp
      have p1: "\<forall>r \<in> set (regions @ [(regionStart, i)]). fst r < snd r"
        using less.prems leave by simp
      have p2: "False \<longrightarrow> regionStart < i + WINDOW_SIZE \<and> regionStart < searchEnd" by simp
      show ?thesis unfolding e
        by (rule ih[where inSpeech=False and regionStart=regionStart
                    and regions="regions @ [(regionStart, i)]", OF p1 p2])
    next
      case stay
      have e: "regionLoop audio searchEnd i inSpeech regionStart regions
                = regionLoop audio searchEnd (i + WINDOW_SIZE) inSpeech regionStart regions"
        using True stay by (subst regionLoop.simps) auto
      have p2: "inSpeech \<longrightarrow> regionStart < i + WINDOW_SIZE \<and> regionStart < searchEnd"
        using less.prems(2) w by auto
      show ?thesis unfolding e
        by (rule ih[where inSpeech=inSpeech and regionStart=regionStart and regions=regions,
                    OF less.prems(1) p2])
    qed
  qed
qed

lemma closestRegion_mem:
  "closestRegion wc rs d b = b \<or> closestRegion wc rs d b \<in> set rs"
  by (induction rs arbitrary: d b) (auto simp: Let_def)

lemma searchForSpeech_shape:
  assumes sr: "0 < sample_rate"
  shows "searchForSpeech audio whisperStart whisperEnd sample_rate = (whisperStart, whisperEnd)
       \<or> (\<exists>s e. s < e \<and> searchForSpeech audio whisperStart whisperEnd sample_rate =
              (s, if e - s > MAX_WORD_DURATION then s + MAX_WORD_DURATION else e))"
proof -
  define wss where "wss = max 0 (min (trunc_int (whisperStart * real_of_int sample_rate))
                              (int (length audio) - 1))"
  define wes where "wes = max wss (min (trunc_int (whisperEnd * real_of_int sample_rate))
                               (int (length audio)))"
  define se where "se = min (int (length audio)) (wes + SEARCH_RADIUS)"
  define rl where "rl = regionLoop audio se (max 0 (wss - SEARCH_RADIUS)) False 0 []"
  define regions where
    "regions = (if fst rl then snd (snd rl) @ [(fst (snd rl), se)] else snd (snd rl))"
  define best where "best = closestRegion ((wss + wes) div 2) regions INT_MAX (hd regions)"
  define s where "s = findBestBoundary audio (fst best) (WINDOW_SIZE * 4) sample_rate True"
  define e where "e = findBestBoundary audio (snd best) (WINDOW_SIZE * 4) sample_rate False"
  have unf: "searchForSpeech audio whisperStart whisperEnd sample_rate =
           (if regions = [] then (whisperStart, whisperEnd)
            else (s, let e1 = (if e \<le> s then s + MIN_WORD_DURATION else e)
                     in if e1 - s > MAX_WORD_DURATION then s + MAX_WORD_DURATION else e1))"
    unfolding searchForSpeech_def e_def s_def best_def regions_def rl_def se_def wes_def wss_def
      Let_def split_def
    by (rule refl)
  have inv: "(\<forall>r \<in> set (snd (snd rl)). fst r < snd r) \<and> (fst rl \<longrightarrow> fst (snd rl) < se)"
    unfolding rl_def
    by (rule regionLoop_regions) simp_all
  have good: "\<forall>r \<in> set regions. fst r < snd r"
    unfolding regions_def using inv by auto
  show ?thesis
  proof (cases "regions = []")
    case True
    then show ?thesis using unf by simp
  next
    case False
    have "best \<in> set regions"
      unfolding best_def
      using closestRegion_mem[of "(wss + wes) div 2" regions INT_MAX "hd regions"] False
      by auto
    then have fb: "fst best < snd best" using good by blast
    have "s \<le> real_of_int (fst best) / real_of_int sample_rate"
      unfolding s_def by (rule findBestBoundary_start_le[OF sr])
    moreover have "real_of_int (snd best) / real_of_int sample_rate \<le> e"
      unfolding e_def by (rule findBestBoundary_end_ge[OF sr])
    moreover have "real_of_int (fst best) / real_of_int sample_rate
                     < real_of_int (snd best) / real_of_int sample_rate"
      using fb sr by (simp add: divide_strict_right_mono)
    ultimately have lt: "s < e" by linarith
    have "searchForSpeech audio whisperStart whisperEnd sample_rate
               = (s, if e - s > MAX_WORD_DURATION then s + MAX_WORD_DURATION else e)"
      using unf False lt by (simp add: Let_def)
    with lt show ?thesis by blast
  qed
qed

lemma searchForSpeech_duration:
  assumes "0 < sample_rate"
  shows "searchForSpeech audio whisperStart whisperEnd sample_rate = (whisperStart, whisperEnd)
       \<or> (0 < snd (searchForSpeech audio whisperStart whisperEnd sample_rate)
               - fst (searchForSpeech audio whisperStart whisperEnd sample_rate)
          \<and> snd (searchForSpeech audio whisperStart whisperEnd sample_rate)
               - fst (searchForSpeech audio whisperStart whisperEnd sample_rate)
             \<le> MAX_WORD_DURATION)"
proof -
  from searchForSpeech_shape[OF assms, of audio whisperStart whisperEnd]
  consider "searchForSpeech audio whisperStart whisperEnd sample_rate = (whisperStart, whisperEnd)"
    | s e where "s < e" "searchForSpeech audio whisperStart whisperEnd sample_rate =
              (s, if e - s > MAX_WORD_DURATION then s + MAX_WORD_DURATION else e)"
    by blast
  then show ?thesis
  proof cases
    case 1
    then show ?thesis by blast
  next
    case 2
    show ?thesis unfolding 2(2) using 2(1) by (simp add: MAX_WORD_DURATION_def)
  qed
qed

text \<open>
  C9. The refiner is specified to return either the recognizer's estimate unchanged or an
  interval lasting between 50 ms and 2 s. The silence half and the upper bound hold
  (\<open>refineWordTimestamp_silence\<close>, \<open>searchForSpeech_duration\<close>). The lower bound does not: \<open>MIN_WORD_DURATION\<close> is only
  applied when the refined end is not after the refined start, and a region always ends
  after it starts, so that branch is never taken. For ten milliseconds of a half-amplitude
  square wave at 48 kHz and a word estimated at 0 to 0.3 seconds, \<open>searchForSpeech\<close>
  finds the single region of samples 0 to 480 and \<open>refineWordTimestamp\<close> returns the
  interval 0 to 0.01 seconds: it is not the estimate, and it lasts 10 ms, less than 50 ms.
\<close>

theorem refiner_short_burst:
  "searchForSpeech burst_audio (start burst_word) (end_time burst_word) 48000 = (0, 1 / 100)
   \<and> refineWordTimestamp burst_word burst_audio 48000
       = burst_word\<lparr>start := 0, end_time := 1 / 100\<rparr>
   \<and> end_time burst_word = 3 / 10
   \<and> end_time (refineWordTimestamp burst_word burst_audio 48000)
       - start (refineWordTimestamp burst_word burst_audio 48000) = 1 / 100
   \<and> (1 / 100 :: real) < MIN_WORD_DURATION"
  by (simp add: refineWordTimestamp_def burst_word_def burst_search MIN_WORD_DURATION_def)


section \<open>Facts about the delay line\<close>

subsection \<open>Positions and list updates\<close>

lemma mod_pos_distinct:
  fixes a j N :: int
  assumes "a < j" "j < a + N"
  shows "j mod N \<noteq> a mod N"
proof
  assume "j mod N = a mod N"
  then have "N dvd (j - a)" by (simp add: mod_eq_dvd_iff)
  then have "N \<le> j - a" using assms(1) by (intro zdvd_imp_le) simp_all
  then show False using assms(2) by simp
qed

lemma canPlay_iff:
  "0 < rate \<Longrightarrow> (D \<le> real_of_int g / real_of_int rate) = (\<lceil>D * real_of_int rate\<rceil> \<le> g)"
  by (simp add: pos_le_divide_eq ceiling_le_iff)

lemma gap_started:
  fixes t G N :: int
  assumes "0 \<le> G" "G < N"
  shows "(t mod N - (t - G) mod N + N) mod N = G"
proof -
  have "(t mod N - (t - G) mod N + N) mod N = (t - (t - G) + N) mod N"
    by (metis mod_add_left_eq mod_diff_eq)
  also have "\<dots> = G" using assms by simp
  finally show ?thesis .
qed

lemma fold_update_length:
  "length (fold (\<lambda>i c. c[pos i := val i]) is c) = length c"
  by (induction "is" arbitrary: c) simp_all

lemma fold_update_other:
  "k \<notin> pos ` set is \<Longrightarrow> fold (\<lambda>i c. c[pos i := val i]) is c ! k = c ! k"
  by (induction "is" arbitrary: c) auto

lemma fold_update_hit:
  assumes "distinct (map pos is)" and "i \<in> set is" and "pos i < length c"
  shows "fold (\<lambda>i c. c[pos i := val i]) is c ! pos i = val i"
  using assms
proof (induction "is" arbitrary: c)
  case Nil
  then show ?case by simp
next
  case (Cons j js)
  show ?case
  proof (cases "i = j")
    case True
    have "pos j \<notin> pos ` set js" using Cons.prems(1) by auto
    then have "fold (\<lambda>i c. c[pos i := val i]) js (c[pos j := val j]) ! pos j
                 = (c[pos j := val j]) ! pos j"
      by (rule fold_update_other)
    then show ?thesis using True Cons.prems(3) by simp
  next
    case False
    then have a: "i \<in> set js" using Cons.prems(2) by simp
    have b: "distinct (map pos js)" using Cons.prems(1) by simp
    have d: "pos i < length (c[pos j := val j])" using Cons.prems(3) by simp
    have "fold (\<lambda>i c. c[pos i := val i]) js (c[pos j := val j]) ! pos i = val i"
      by (rule Cons.IH[OF b a d])
    then show ?thesis by simp
  qed
qed

subsection \<open>One pass of the loop\<close>

lemma writeFrame_length: "length (writeFrame db w frame) = length db"
proof -
  have "length (fold (\<lambda>ch d. d[ch := (d ! ch)[nat w := frame ! ch]]) chs db) = length db"
    for chs
    by (induction chs arbitrary: db) simp_all
  then show ?thesis by (simp add: writeFrame_def)
qed

lemma writeFrame_nth:
  assumes "length db = 2" and "c < 2"
  shows "writeFrame db w frame ! c
         = (if c < length frame then (db ! c)[nat w := frame ! c] else db ! c)"
proof -
  have u: "[0 ..< 2] = [0, Suc 0]" by (simp add: numeral_2_eq_2)
  consider "length frame = 0" | "length frame = 1" | "2 \<le> length frame" by linarith
  then show ?thesis
  proof cases
    case 1
    then show ?thesis by (simp add: writeFrame_def)
  next
    case 2
    then show ?thesis using assms by (auto simp add: writeFrame_def)
  next
    case 3
    then have "min 2 (length frame) = 2" by simp
    then show ?thesis using assms 3 by (auto simp add: writeFrame_def u less_2_cases_iff)
  qed
qed

lemma delayFrame_buffer:
  "delayBuffer (snd (delayFrame st frame numOut))
     = writeFrame (delayBuffer st) (delayWritePos st) frame"
  by (simp add: delayFrame_def Let_def)

lemma delayFrame_kept:
  "sampleRate (snd (delayFrame st frame numOut)) = sampleRate st"
  "initialDelaySeconds (snd (delayFrame st frame numOut)) = initialDelaySeconds st"
  "currentCensorMode (snd (delayFrame st frame numOut)) = currentCensorMode st"
  "delayBufferSize (snd (delayFrame st frame numOut)) = delayBufferSize st"
  "delayWritePos (snd (delayFrame st frame numOut))
     = (delayWritePos st + 1) mod delayBufferSize st"
  by (simp_all add: delayFrame_def Let_def)

lemma delayFrame_filling:
  assumes "\<not> playbackStarted st" and "\<not> wasPaused st"
    and "\<not> initialDelaySeconds st \<le> real_of_int (currentGap st) / real_of_int (sampleRate st)"
  shows "\<not> playbackStarted (snd (delayFrame st frame numOut))"
    and "\<not> wasPaused (snd (delayFrame st frame numOut))"
    and "delayReadPos (snd (delayFrame st frame numOut)) = delayReadPos st"
  using assms by (simp_all add: delayFrame_def Let_def)

lemma delayFrame_playing:
  assumes "\<not> wasPaused st"
    and "initialDelaySeconds st \<le> real_of_int (currentGap st) / real_of_int (sampleRate st)"
  shows "playbackStarted (snd (delayFrame st frame numOut))"
    and "\<not> wasPaused (snd (delayFrame st frame numOut))"
    and "delayReadPos (snd (delayFrame st frame numOut))
           = (delayReadPos st + 1) mod delayBufferSize st"
    and "fst (delayFrame st frame numOut)
           = map (\<lambda>ch. writeFrame (delayBuffer st) (delayWritePos st) frame
                         ! (min ch 1) ! nat (delayReadPos st)) [0 ..< numOut]"
  using assms by (simp_all add: delayFrame_def Let_def)

lemma delayFrame_inv:
  assumes sr: "0 < rate" and G0: "0 \<le> \<lceil>D * real_of_int rate\<rceil>"
    and GN: "\<lceil>D * real_of_int rate\<rceil> < N"
    and inv: "delay_line_inv rate D mode N t st"
  shows "delay_line_inv rate D mode N (Suc t) (snd (delayFrame st frame numOut))"
proof -
  let ?G = "\<lceil>D * real_of_int rate\<rceil>"
  let ?st = "snd (delayFrame st frame numOut)"
  note i = inv[unfolded delay_line_inv_def Let_def]
  have f: "sampleRate st = rate" "initialDelaySeconds st = D" "currentCensorMode st = mode"
    "delayBufferSize st = N" "length (delayBuffer st) = 2"
    "length (delayBuffer st ! 0) = nat N" "length (delayBuffer st ! 1) = nat N"
    "delayWritePos st = int t mod N" "\<not> wasPaused st"
    using i by simp_all
  have N: "0 < N" using G0 GN by linarith
  have w: "delayWritePos ?st = int (Suc t) mod N"
    by (simp add: delayFrame_kept f mod_simps add.commute)
  have db: "length (delayBuffer ?st) = 2"
    by (simp add: delayFrame_buffer writeFrame_length f)
  have db0: "length (delayBuffer ?st ! 0) = nat N"
    by (simp add: delayFrame_buffer writeFrame_nth f)
  have db1: "length (delayBuffer ?st ! 1) = nat N"
    using f(5,7) by (simp add: delayFrame_buffer writeFrame_nth)
  have rest: "\<not> wasPaused ?st
      \<and> (if int (Suc t) \<le> ?G then \<not> playbackStarted ?st \<and> delayReadPos ?st = 0
          else playbackStarted ?st \<and> delayReadPos ?st = (int (Suc t) - ?G) mod N)"
  proof (cases "int t < ?G")
    case True
    then have ps: "\<not> playbackStarted st" and r: "delayReadPos st = 0" using i by simp_all
    have gap: "currentGap st = int t"
      using True GN by (simp add: currentGap_def f r)
    have no: "\<not> initialDelaySeconds st \<le> real_of_int (currentGap st) / real_of_int (sampleRate st)"
      unfolding f gap canPlay_iff[OF sr] using True by simp
    show ?thesis
      using delayFrame_filling[OF ps f(9) no, of frame numOut] True r by simp
  next
    case False
    have gap: "currentGap st = ?G"
    proof (cases "int t = ?G")
      case True
      then have r: "delayReadPos st = 0" using i by simp
      show ?thesis using True GN G0 by (simp add: currentGap_def f r)
    next
      case F: False
      then have r: "delayReadPos st = (int t - ?G) mod N" using False i by simp
      show ?thesis unfolding currentGap_def f r by (rule gap_started[OF G0 GN])
    qed
    have yes: "initialDelaySeconds st \<le> real_of_int (currentGap st) / real_of_int (sampleRate st)"
      unfolding f gap canPlay_iff[OF sr] by simp
    have r: "delayReadPos st = (int t - ?G) mod N"
      using False i N by (cases "int t = ?G") simp_all
    have "(delayReadPos st + 1) mod delayBufferSize st = (int (Suc t) - ?G) mod N"
      unfolding r f by (simp add: mod_simps algebra_simps)
    then show ?thesis
      using delayFrame_playing(1,2,3)[OF f(9) yes, of frame numOut] False by simp
  qed
  show ?thesis
    unfolding delay_line_inv_def Let_def
    using rest w db db0 db1 by (simp add: delayFrame_kept f)
qed

lemma delayFrame_output:
  assumes sr: "0 < rate" and G0: "0 \<le> \<lceil>D * real_of_int rate\<rceil>"
    and GN: "\<lceil>D * real_of_int rate\<rceil> < N"
    and inv: "delay_line_inv rate D mode N t st"
    and t: "\<lceil>D * real_of_int rate\<rceil> \<le> int t"
  shows "fst (delayFrame st frame numOut)
           = map (\<lambda>ch. writeFrame (delayBuffer st) (int t mod N) frame
                         ! (min ch 1) ! nat ((int t - \<lceil>D * real_of_int rate\<rceil>) mod N))
                 [0 ..< numOut]"
proof -
  let ?G = "\<lceil>D * real_of_int rate\<rceil>"
  note i = inv[unfolded delay_line_inv_def Let_def]
  have f: "sampleRate st = rate" "initialDelaySeconds st = D"
    "delayBufferSize st = N" "delayWritePos st = int t mod N" "\<not> wasPaused st"
    using i by simp_all
  have N: "0 < N" using G0 GN by linarith
  have r: "delayReadPos st = (int t - ?G) mod N"
    using t i N by (cases "int t = ?G") simp_all
  have gap: "currentGap st = ?G"
    unfolding currentGap_def f r by (rule gap_started[OF G0 GN])
  have yes: "initialDelaySeconds st \<le> real_of_int (currentGap st) / real_of_int (sampleRate st)"
    unfolding f gap canPlay_iff[OF sr] by simp
  show ?thesis
    using delayFrame_playing(4)[OF f(5) yes, of frame numOut] by (simp add: f r)
qed

subsection \<open>One rewrite\<close>

lemma applyCensor_kept:
  "sampleRate (applyCensor st c s e) = sampleRate st"
  "initialDelaySeconds (applyCensor st c s e) = initialDelaySeconds st"
  "currentCensorMode (applyCensor st c s e) = currentCensorMode st"
  "delayBufferSize (applyCensor st c s e) = delayBufferSize st"
  "delayWritePos (applyCensor st c s e) = delayWritePos st"
  "delayReadPos (applyCensor st c s e) = delayReadPos st"
  "playbackStarted (applyCensor st c s e) = playbackStarted st"
  "wasPaused (applyCensor st c s e) = wasPaused st"
  by (simp_all add: applyCensor_def split: CensorMode.splits)

lemma applyCensor_buffer_length:
  "length (delayBuffer (applyCensor st c s e)) = length (delayBuffer st)"
  by (auto simp add: applyCensor_def split: CensorMode.splits)

lemma applyCensor_buffer_nth:
  assumes "ch < 2" and "length (delayBuffer st) = 2"
  shows "delayBuffer (applyCensor st c s e) ! ch
         = (case currentCensorMode st of
              Mute \<Rightarrow> muteChannel (delayBufferSize st) c s e (delayBuffer st ! ch)
            | Reverse \<Rightarrow> reverseChannel (delayBufferSize st) c s e (delayBuffer st ! ch))"
  using assms by (simp add: applyCensor_def nth_append split: CensorMode.splits)

lemma reverseChannel_length:
  "length (reverseChannel N c s e channel) = length channel"
  unfolding reverseChannel_def Let_def by (rule fold_update_length)

lemma reverseChannel_other:
  assumes "0 < N" and "0 \<le> p"
    and "p \<notin> set (map (\<lambda>i. (c + i) mod N) [s .. e - 1])"
  shows "reverseChannel N c s e channel ! nat p = channel ! nat p"
proof -
  have "nat p \<notin> (\<lambda>i. nat ((c + s + i) mod N)) ` set [0 .. e - s - 1]"
  proof
    assume "nat p \<in> (\<lambda>i. nat ((c + s + i) mod N)) ` set [0 .. e - s - 1]"
    then obtain i where i: "0 \<le> i" "i \<le> e - s - 1" and eq: "nat p = nat ((c + s + i) mod N)"
      by auto
    have "0 \<le> (c + s + i) mod N" using assms(1) by simp
    then have "p = (c + (s + i)) mod N" using eq assms(2) by (simp add: add.assoc)
    moreover have "s + i \<in> set [s .. e - 1]" using i by simp
    ultimately show False using assms(3) by auto
  qed
  then show ?thesis
    unfolding reverseChannel_def Let_def by (rule fold_update_other)
qed

lemma reverse_positions_distinct:
  assumes "0 < N" and "n \<le> N"
  shows "distinct (map (\<lambda>i. nat ((b + i) mod N)) [0 .. n - 1])"
proof -
  have "inj_on (\<lambda>i. nat ((b + i) mod N)) (set [0 .. n - 1])"
  proof (rule inj_onI)
    fix i j
    assume i: "i \<in> set [0 .. n - 1]" and j: "j \<in> set [0 .. n - 1]"
      and eq: "nat ((b + i) mod N) = nat ((b + j) mod N)"
    have "0 \<le> (b + i) mod N" "0 \<le> (b + j) mod N" using assms(1) by simp_all
    then have m: "(b + i) mod N = (b + j) mod N" using eq by simp
    show "i = j"
    proof (rule ccontr)
      assume "i \<noteq> j"
      then consider "i < j" | "j < i" by linarith
      then show False
      proof cases
        case 1
        have "(b + j) mod N \<noteq> (b + i) mod N"
          by (rule mod_pos_distinct) (use 1 i j assms(2) in simp_all)
        then show False using m by simp
      next
        case 2
        have "(b + i) mod N \<noteq> (b + j) mod N"
          by (rule mod_pos_distinct) (use 2 i j assms(2) in simp_all)
        then show False using m by simp
      qed
    qed
  qed
  then show ?thesis by (simp add: distinct_map)
qed

lemma reverseChannel_covered:
  assumes N: "0 < N" and len: "length channel = nat N" and n: "e - s \<le> N"
    and i: "0 \<le> i" "i < e - s"
  shows "reverseChannel N c s e channel ! nat ((c + s + i) mod N)
         = channel ! nat ((c + s + (e - s - 1 - i)) mod N)
           * reverseGain (e - s) (min 480 ((e - s) div 4)) i"
proof -
  let ?n = "e - s"
  let ?pos = "\<lambda>i. nat ((c + s + i) mod N)"
  let ?orig = "map (\<lambda>i. channel ! nat ((c + s + i) mod N)) [0 .. ?n - 1]"
  let ?val = "\<lambda>i. rev ?orig ! nat i * reverseGain ?n (min 480 (?n div 4)) i"
  have d: "distinct (map ?pos [0 .. ?n - 1])"
    by (rule reverse_positions_distinct[OF N n])
  have m: "i \<in> set [0 .. ?n - 1]" using i by simp
  have l: "?pos i < length channel" using N len by (simp add: nat_less_iff)
  have h: "fold (\<lambda>i c. c[?pos i := ?val i]) [0 .. ?n - 1] channel ! ?pos i = ?val i"
    by (rule fold_update_hit[OF d m l])
  have lo: "length ?orig = nat ?n" by simp
  have "rev ?orig ! nat i = ?orig ! (nat ?n - Suc (nat i))"
    using i by (simp add: rev_nth nat_less_iff)
  also have "nat ?n - Suc (nat i) = nat (?n - 1 - i)" using i by simp
  also have "?orig ! nat (?n - 1 - i) = channel ! nat ((c + s + (?n - 1 - i)) mod N)"
    using i by (simp add: nth_upto)
  finally have r: "rev ?orig ! nat i = channel ! nat ((c + s + (?n - 1 - i)) mod N)" .
  show ?thesis
    using h unfolding reverseChannel_def Let_def r .
qed

subsection \<open>The loop over the frames of a callback\<close>

lemma delay_line_inv_channel:
  assumes "delay_line_inv rate D mode N t st" and "ch < 2"
  shows "length (delayBuffer st ! ch) = nat N"
proof -
  note i = assms(1)[unfolded delay_line_inv_def Let_def]
  have "ch = 0 \<or> ch = 1" using assms(2) by auto
  then show ?thesis using i by auto
qed

lemma delay_line_inv_cong:
  assumes "delay_line_inv rate D mode N t st"
    and "sampleRate st' = sampleRate st" and "initialDelaySeconds st' = initialDelaySeconds st"
    and "currentCensorMode st' = currentCensorMode st"
    and "delayBufferSize st' = delayBufferSize st" and "delayBuffer st' = delayBuffer st"
    and "delayWritePos st' = delayWritePos st" and "delayReadPos st' = delayReadPos st"
    and "playbackStarted st' = playbackStarted st" and "wasPaused st' = wasPaused st"
  shows "delay_line_inv rate D mode N t st'"
  using assms(1) unfolding delay_line_inv_def Let_def assms(2-) .

lemma applyCensor_inv:
  assumes "delay_line_inv rate D mode N t st"
  shows "delay_line_inv rate D mode N t (applyCensor st c s e)"
proof -
  note i = assms[unfolded delay_line_inv_def Let_def]
  have l: "length (delayBuffer st) = 2" using i by simp
  have l0: "length (delayBuffer (applyCensor st c s e) ! 0) = length (delayBuffer st ! 0)"
    using applyCensor_buffer_nth[of 0 st c s e] l
    by (simp add: muteChannel_length reverseChannel_length split: CensorMode.splits)
  have l1: "length (delayBuffer (applyCensor st c s e) ! 1) = length (delayBuffer st ! 1)"
    using applyCensor_buffer_nth[of 1 st c s e] l
    by (simp add: muteChannel_length reverseChannel_length split: CensorMode.splits)
  show ?thesis
    unfolding delay_line_inv_def Let_def
    using i l0 l1 by (simp add: applyCensor_kept applyCensor_buffer_length)
qed

lemma delayFrames_simps:
  "delayFrames st [] numOut = st"
  "delayFrames st (frame # frames) numOut
     = delayFrames (snd (delayFrame st frame numOut)) frames numOut"
  "delayFrames st (frames1 @ frames2) numOut
     = delayFrames (delayFrames st frames1 numOut) frames2 numOut"
  by (simp_all add: delayFrames_def)

lemma delayFrames_inv:
  assumes sr: "0 < rate" and G0: "0 \<le> \<lceil>D * real_of_int rate\<rceil>"
    and GN: "\<lceil>D * real_of_int rate\<rceil> < N"
    and inv: "delay_line_inv rate D mode N t st"
  shows "delay_line_inv rate D mode N (t + length frames) (delayFrames st frames numOut)"
  using inv
proof (induction frames arbitrary: t st)
  case Nil
  then show ?case by (simp add: delayFrames_simps)
next
  case (Cons frame frames)
  have "delay_line_inv rate D mode N (Suc t) (snd (delayFrame st frame numOut))"
    by (rule delayFrame_inv[OF sr G0 GN Cons.prems])
  from Cons.IH[OF this] show ?case by (simp add: delayFrames_simps)
qed

lemma delayFrames_cell:
  assumes sr: "0 < rate" and G0: "0 \<le> \<lceil>D * real_of_int rate\<rceil>"
    and GN: "\<lceil>D * real_of_int rate\<rceil> < N"
    and inv: "delay_line_inv rate D mode N t st"
    and ch: "ch < 2"
    and a: "a < int t" "int t + int (length frames) \<le> a + N"
  shows "delayBuffer (delayFrames st frames numOut) ! ch ! nat (a mod N)
         = delayBuffer st ! ch ! nat (a mod N)"
  using inv a
proof (induction frames arbitrary: t st)
  case Nil
  then show ?case by (simp add: delayFrames_simps)
next
  case (Cons frame frames)
  have N: "0 < N" using G0 GN by linarith
  have p0: "0 \<le> a mod N" using N by simp
  note i = Cons.prems(1)[unfolded delay_line_inv_def Let_def]
  have l: "length (delayBuffer st) = 2" using i by simp
  have inv1: "delay_line_inv rate D mode N (Suc t) (snd (delayFrame st frame numOut))"
    by (rule delayFrame_inv[OF sr G0 GN Cons.prems(1)])
  have b: "a < int (Suc t)" using Cons.prems(2) by simp
  have c: "int (Suc t) + int (length frames) \<le> a + N" using Cons.prems(3) by simp
  have "int t mod N \<noteq> a mod N"
    by (rule mod_pos_distinct) (use Cons.prems(2) c in simp_all)
  moreover have "0 \<le> int t mod N" using N by simp
  ultimately have ne: "nat (int t mod N) \<noteq> nat (a mod N)" using p0 by simp
  have w: "delayWritePos st = int t mod N" using i by simp
  have "delayBuffer (snd (delayFrame st frame numOut)) ! ch ! nat (a mod N)
          = delayBuffer st ! ch ! nat (a mod N)"
    using ne by (simp add: delayFrame_buffer writeFrame_nth[OF l ch] w)
  with Cons.IH[OF inv1 b c] show ?case by (simp add: delayFrames_simps)
qed

lemma delayFrame_written:
  assumes inv: "delay_line_inv rate D mode N t st" and N: "0 < N"
    and ch: "ch < 2" "ch < length frame"
  shows "delayBuffer (snd (delayFrame st frame numOut)) ! ch ! nat (int t mod N) = frame ! ch"
proof -
  note i = inv[unfolded delay_line_inv_def Let_def]
  have l: "length (delayBuffer st) = 2" and w: "delayWritePos st = int t mod N"
    using i by simp_all
  have "nat (int t mod N) < length (delayBuffer st ! ch)"
    using delay_line_inv_channel[OF inv ch(1)] N by (simp add: nat_less_iff)
  then show ?thesis
    unfolding delayFrame_buffer w using ch(2) by (simp add: writeFrame_nth[OF l ch(1)])
qed

lemma delayFrames_written:
  assumes sr: "0 < rate" and G0: "0 \<le> \<lceil>D * real_of_int rate\<rceil>"
    and GN: "\<lceil>D * real_of_int rate\<rceil> < N"
    and inv: "delay_line_inv rate D mode N t st"
    and i: "i < length frames" "int (length frames) \<le> int i + N"
    and ch: "ch < 2" "ch < length (frames ! i)"
  shows "delayBuffer (delayFrames st frames numOut) ! ch ! nat ((int t + int i) mod N)
         = frames ! i ! ch"
proof -
  have N: "0 < N" using G0 GN by linarith
  have split: "frames = take i frames @ frames ! i # drop (Suc i) frames"
    using i(1) by (simp add: id_take_nth_drop)
  define s1 where "s1 = delayFrames st (take i frames) numOut"
  define s2 where "s2 = snd (delayFrame s1 (frames ! i) numOut)"
  have inv1: "delay_line_inv rate D mode N (t + i) s1"
    using delayFrames_inv[OF sr G0 GN inv, of "take i frames" numOut] i(1)
    by (simp add: s1_def min_def)
  have inv2: "delay_line_inv rate D mode N (Suc (t + i)) s2"
    unfolding s2_def by (rule delayFrame_inv[OF sr G0 GN inv1])
  have w: "delayBuffer s2 ! ch ! nat (int (t + i) mod N) = frames ! i ! ch"
    unfolding s2_def by (rule delayFrame_written[OF inv1 N ch])
  have run: "delayFrames st frames numOut = delayFrames s2 (drop (Suc i) frames) numOut"
    by (subst split) (simp add: delayFrames_simps s1_def s2_def)
  have a: "int (t + i) < int (Suc (t + i))" by simp
  have b: "int (Suc (t + i)) + int (length (drop (Suc i) frames)) \<le> int (t + i) + N"
    using i by simp
  have "delayBuffer (delayFrames s2 (drop (Suc i) frames) numOut) ! ch
          ! nat (int (t + i) mod N) = delayBuffer s2 ! ch ! nat (int (t + i) mod N)"
    by (rule delayFrames_cell[OF sr G0 GN inv2 ch(1) a b])
  then show ?thesis using w by (simp add: run)
qed

lemma delayLoop_Cons:
  "delayLoop st (frame # frames) numOut
     = (fst (delayFrame st frame numOut)
          # fst (delayLoop (snd (delayFrame st frame numOut)) frames numOut),
        snd (delayLoop (snd (delayFrame st frame numOut)) frames numOut))"
  by (simp add: split_def)

lemma delayLoop_delayFrames:
  "snd (delayLoop st frames numOut) = delayFrames st frames numOut"
proof (induction frames arbitrary: st)
  case Nil
  then show ?case by (simp add: delayFrames_simps)
next
  case (Cons frame frames)
  show ?case
    unfolding delayLoop_Cons delayFrames_simps by (simp add: Cons.IH)
qed

lemma delayLoop_length: "length (fst (delayLoop st frames numOut)) = length frames"
proof (induction frames arbitrary: st)
  case Nil
  then show ?case by simp
next
  case (Cons frame frames)
  show ?case unfolding delayLoop_Cons by (simp add: Cons.IH)
qed

lemma delayLoop_outputs:
  assumes "j < length frames"
  shows "fst (delayLoop st frames numOut) ! j
         = fst (delayFrame (delayFrames st (take j frames) numOut) (frames ! j) numOut)"
  using assms
proof (induction frames arbitrary: st j)
  case Nil
  then show ?case by simp
next
  case (Cons frame frames)
  show ?case
  proof (cases j)
    case 0
    then show ?thesis unfolding delayLoop_Cons by (simp add: delayFrames_simps)
  next
    case (Suc j')
    then have "j' < length frames" using Cons.prems by simp
    from Cons.IH[OF this, of "snd (delayFrame st frame numOut)"]
    show ?thesis unfolding delayLoop_Cons by (simp add: Suc delayFrames_simps)
  qed
qed

lemma framesOf_length: "length (framesOf inp n) = n"
  by (simp add: framesOf_def)

lemma framesOf_nth:
  assumes "i < n"
  shows "length (framesOf inp n ! i) = length inp"
    and "c < length inp \<Longrightarrow> framesOf inp n ! i ! c = inp ! c ! i"
  using assms by (simp_all add: framesOf_def)

subsection \<open>The callback and the delay line\<close>

lemma beforeDelayLoop_delay:
  "sampleRate (beforeDelayLoop st inp n) = sampleRate st"
  "initialDelaySeconds (beforeDelayLoop st inp n) = initialDelaySeconds st"
  "chunkSeconds (beforeDelayLoop st inp n) = chunkSeconds st"
  "currentCensorMode (beforeDelayLoop st inp n) = currentCensorMode st"
  "delayBufferSize (beforeDelayLoop st inp n) = delayBufferSize st"
  "delayBuffer (beforeDelayLoop st inp n) = delayBuffer st"
  "delayWritePos (beforeDelayLoop st inp n) = delayWritePos st"
  "delayReadPos (beforeDelayLoop st inp n) = delayReadPos st"
  "playbackStarted (beforeDelayLoop st inp n) = playbackStarted st"
  "wasPaused (beforeDelayLoop st inp n) = wasPaused st"
  "isRunning (beforeDelayLoop st inp n) = isRunning st"
  "workerCaptureTime (beforeDelayLoop st inp n) = workerCaptureTime st"
  by (simp_all add: beforeDelayLoop_def Let_def monitorBufferHealth_delay handoff_delay
                    identifySongAttempt_delay accumulateInput_delay measureInputLevel_delay)

lemma beforeDelayLoop_inv:
  assumes "delay_line_inv rate D mode N t st"
  shows "delay_line_inv rate D mode N t (beforeDelayLoop st inp n)"
  by (rule delay_line_inv_cong[OF assms]) (simp_all add: beforeDelayLoop_delay)

lemma callback_delay_state:
  "sampleRate (snd (audioDeviceIOCallbackWithContext st inp numOut n))
     = sampleRate (delayFrames (beforeDelayLoop st inp n) (framesOf inp n) numOut)"
  "initialDelaySeconds (snd (audioDeviceIOCallbackWithContext st inp numOut n))
     = initialDelaySeconds (delayFrames (beforeDelayLoop st inp n) (framesOf inp n) numOut)"
  "currentCensorMode (snd (audioDeviceIOCallbackWithContext st inp numOut n))
     = currentCensorMode (delayFrames (beforeDelayLoop st inp n) (framesOf inp n) numOut)"
  "delayBufferSize (snd (audioDeviceIOCallbackWithContext st inp numOut n))
     = delayBufferSize (delayFrames (beforeDelayLoop st inp n) (framesOf inp n) numOut)"
  "delayBuffer (snd (audioDeviceIOCallbackWithContext st inp numOut n))
     = delayBuffer (delayFrames (beforeDelayLoop st inp n) (framesOf inp n) numOut)"
  "delayWritePos (snd (audioDeviceIOCallbackWithContext st inp numOut n))
     = delayWritePos (delayFrames (beforeDelayLoop st inp n) (framesOf inp n) numOut)"
  "delayReadPos (snd (audioDeviceIOCallbackWithContext st inp numOut n))
     = delayReadPos (delayFrames (beforeDelayLoop st inp n) (framesOf inp n) numOut)"
  "playbackStarted (snd (audioDeviceIOCallbackWithContext st inp numOut n))
     = playbackStarted (delayFrames (beforeDelayLoop st inp n) (framesOf inp n) numOut)"
  "wasPaused (snd (audioDeviceIOCallbackWithContext st inp numOut n))
     = wasPaused (delayFrames (beforeDelayLoop st inp n) (framesOf inp n) numOut)"
  by (simp_all add: callback_state delayLoop_delayFrames)

lemma callback_inv:
  assumes sr: "0 < rate" and G0: "0 \<le> \<lceil>D * real_of_int rate\<rceil>"
    and GN: "\<lceil>D * real_of_int rate\<rceil> < N"
    and inv: "delay_line_inv rate D mode N t st"
  shows "delay_line_inv rate D mode N (t + n)
           (snd (audioDeviceIOCallbackWithContext st inp numOut n))"
proof -
  have "delay_line_inv rate D mode N (t + length (framesOf inp n))
          (delayFrames (beforeDelayLoop st inp n) (framesOf inp n) numOut)"
    by (rule delayFrames_inv[OF sr G0 GN beforeDelayLoop_inv[OF inv]])
  then have i: "delay_line_inv rate D mode N (t + n)
          (delayFrames (beforeDelayLoop st inp n) (framesOf inp n) numOut)"
    by (simp add: framesOf_length)
  show ?thesis
    by (rule delay_line_inv_cong[OF i]) (simp_all add: callback_delay_state)
qed

lemma callback_cell:
  assumes sr: "0 < rate" and G0: "0 \<le> \<lceil>D * real_of_int rate\<rceil>"
    and GN: "\<lceil>D * real_of_int rate\<rceil> < N"
    and inv: "delay_line_inv rate D mode N t st"
    and ch: "ch < 2"
    and a: "a < int t" "int t + int n \<le> a + N"
  shows "delayBuffer (snd (audioDeviceIOCallbackWithContext st inp numOut n)) ! ch
           ! nat (a mod N) = delayBuffer st ! ch ! nat (a mod N)"
proof -
  have b: "int t + int (length (framesOf inp n)) \<le> a + N"
    using a(2) by (simp add: framesOf_length)
  show ?thesis
    unfolding callback_delay_state
    using delayFrames_cell[OF sr G0 GN beforeDelayLoop_inv[OF inv] ch a(1) b]
    by (simp add: beforeDelayLoop_delay)
qed

lemma callback_written:
  assumes sr: "0 < rate" and G0: "0 \<le> \<lceil>D * real_of_int rate\<rceil>"
    and GN: "\<lceil>D * real_of_int rate\<rceil> < N"
    and inv: "delay_line_inv rate D mode N t st"
    and i: "i < n" "int n \<le> int i + N"
    and ch: "ch < 2" "ch < length inp"
  shows "delayBuffer (snd (audioDeviceIOCallbackWithContext st inp numOut n)) ! ch
           ! nat ((int t + int i) mod N) = inp ! ch ! i"
proof -
  have i1: "i < length (framesOf inp n)" using i(1) by (simp add: framesOf_length)
  have i2: "int (length (framesOf inp n)) \<le> int i + N" using i(2) by (simp add: framesOf_length)
  have c2: "ch < length (framesOf inp n ! i)" using ch(2) i(1) by (simp add: framesOf_nth)
  show ?thesis
    unfolding callback_delay_state
    using delayFrames_written[OF sr G0 GN beforeDelayLoop_inv[OF inv] i1 i2 ch(1) c2]
          framesOf_nth(2)[OF i(1) ch(2)]
    by simp
qed

lemma callback_out:
  assumes sr: "0 < rate" and G0: "0 \<le> \<lceil>D * real_of_int rate\<rceil>"
    and GN: "\<lceil>D * real_of_int rate\<rceil> < N"
    and inv: "delay_line_inv rate D mode N t st"
    and j: "j < n" and G: "\<lceil>D * real_of_int rate\<rceil> \<le> int t + int j"
    and ch: "ch < numOut"
  shows "fst (audioDeviceIOCallbackWithContext st inp numOut n) ! j ! ch
         = delayBuffer (delayFrames (beforeDelayLoop st inp n)
                          (take (Suc j) (framesOf inp n)) numOut)
             ! min ch 1 ! nat ((int t + int j - \<lceil>D * real_of_int rate\<rceil>) mod N)"
proof -
  let ?fr = "framesOf inp n"
  let ?s = "delayFrames (beforeDelayLoop st inp n) (take j ?fr) numOut"
  have jl: "j < length ?fr" using j by (simp add: framesOf_length)
  have invj: "delay_line_inv rate D mode N (t + j) ?s"
    using delayFrames_inv[OF sr G0 GN beforeDelayLoop_inv[OF inv],
            where frames = "take j ?fr" and numOut = numOut] jl
    by (simp add: min_def)
  have Gj: "\<lceil>D * real_of_int rate\<rceil> \<le> int (t + j)" using G by simp
  have o: "fst (audioDeviceIOCallbackWithContext st inp numOut n) ! j
             = fst (delayFrame ?s (?fr ! j) numOut)"
    unfolding callback_output by (rule delayLoop_outputs[OF jl])
  have t: "take (Suc j) ?fr = take j ?fr @ [?fr ! j]"
    using jl by (simp add: take_Suc_conv_app_nth)
  have b: "delayBuffer (delayFrames (beforeDelayLoop st inp n) (take (Suc j) ?fr) numOut)
             = writeFrame (delayBuffer ?s) (int (t + j) mod N) (?fr ! j)"
    using invj[unfolded delay_line_inv_def Let_def]
    by (simp add: t delayFrames_simps delayFrame_buffer)
  show ?thesis
    unfolding o b delayFrame_output[OF sr G0 GN invj Gj]
    using ch by simp
qed

lemma callback_out_earlier:
  assumes sr: "0 < rate" and G0: "0 \<le> \<lceil>D * real_of_int rate\<rceil>"
    and GN: "\<lceil>D * real_of_int rate\<rceil> < N"
    and inv: "delay_line_inv rate D mode N t st"
    and j: "j < n" and a: "a + \<lceil>D * real_of_int rate\<rceil> = int t + int j" "a < int t" "0 \<le> a"
    and ch: "ch < numOut"
  shows "fst (audioDeviceIOCallbackWithContext st inp numOut n) ! j ! ch
         = delayBuffer st ! min ch 1 ! nat (a mod N)"
proof -
  let ?G = "\<lceil>D * real_of_int rate\<rceil>"
  have G: "?G \<le> int t + int j" using a by linarith
  have e: "int t + int j - ?G = a" using a(1) by simp
  have c2: "min ch 1 < 2" by simp
  have jl: "j < length (framesOf inp n)" using j by (simp add: framesOf_length)
  have b: "int t + int (length (take (Suc j) (framesOf inp n))) \<le> a + N"
    using jl a(1) GN by (simp add: min_def)
  have "delayBuffer (delayFrames (beforeDelayLoop st inp n)
                          (take (Suc j) (framesOf inp n)) numOut) ! min ch 1 ! nat (a mod N)
          = delayBuffer (beforeDelayLoop st inp n) ! min ch 1 ! nat (a mod N)"
    by (rule delayFrames_cell[OF sr G0 GN beforeDelayLoop_inv[OF inv] c2 a(2) b])
  then show ?thesis
    unfolding callback_out[OF sr G0 GN inv j G ch] e by (simp add: beforeDelayLoop_delay)
qed

lemma callback_out_same:
  assumes sr: "0 < rate" and G0: "0 \<le> \<lceil>D * real_of_int rate\<rceil>"
    and GN: "\<lceil>D * real_of_int rate\<rceil> < N"
    and inv: "delay_line_inv rate D mode N t st"
    and j: "j < n" and i: "int i + \<lceil>D * real_of_int rate\<rceil> = int j"
    and ch: "ch < numOut" "min ch 1 < length inp"
  shows "fst (audioDeviceIOCallbackWithContext st inp numOut n) ! j ! ch
         = inp ! min ch 1 ! i"
proof -
  let ?G = "\<lceil>D * real_of_int rate\<rceil>"
  let ?fr = "take (Suc j) (framesOf inp n)"
  have G: "?G \<le> int t + int j" using i by linarith
  have e: "int t + int j - ?G = int t + int i" using i by simp
  have c2: "min ch 1 < 2" by simp
  have ij: "i \<le> j" using i G0 by linarith
  have in': "i < n" using ij j by simp
  have jl: "j < length (framesOf inp n)" using j by (simp add: framesOf_length)
  have l: "length ?fr = Suc j" using jl by simp
  have i1: "i < length ?fr" using ij l by simp
  have i2: "int (length ?fr) \<le> int i + N" using l i GN by simp
  have fi: "?fr ! i = framesOf inp n ! i" using ij by simp
  have c3: "min ch 1 < length (?fr ! i)"
    unfolding fi using ch(2) in' by (simp add: framesOf_nth)
  have "delayBuffer (delayFrames (beforeDelayLoop st inp n) ?fr numOut) ! min ch 1
          ! nat ((int t + int i) mod N) = ?fr ! i ! min ch 1"
    by (rule delayFrames_written[OF sr G0 GN beforeDelayLoop_inv[OF inv] i1 i2 c2 c3])
  then show ?thesis
    unfolding callback_out[OF sr G0 GN inv j G ch(1)] e fi
    using framesOf_nth(2)[OF in' ch(2)] by simp
qed

subsection \<open>The worker's rewrite, and runs\<close>

lemma recordCensorshipEvent_delay:
  "sampleRate (recordCensorshipEvent st w ts c m multi) = sampleRate st"
  "initialDelaySeconds (recordCensorshipEvent st w ts c m multi) = initialDelaySeconds st"
  "chunkSeconds (recordCensorshipEvent st w ts c m multi) = chunkSeconds st"
  "currentCensorMode (recordCensorshipEvent st w ts c m multi) = currentCensorMode st"
  "delayBufferSize (recordCensorshipEvent st w ts c m multi) = delayBufferSize st"
  "delayBuffer (recordCensorshipEvent st w ts c m multi) = delayBuffer st"
  "delayWritePos (recordCensorshipEvent st w ts c m multi) = delayWritePos st"
  "delayReadPos (recordCensorshipEvent st w ts c m multi) = delayReadPos st"
  "playbackStarted (recordCensorshipEvent st w ts c m multi) = playbackStarted st"
  "wasPaused (recordCensorshipEvent st w ts c m multi) = wasPaused st"
  "isRunning (recordCensorshipEvent st w ts c m multi) = isRunning st"
  "bufferUnderrun (recordCensorshipEvent st w ts c m multi) = bufferUnderrun st"
  by (simp_all add: recordCensorshipEvent_def Let_def)

lemma recordCensorshipEvent_inv:
  assumes "delay_line_inv rate D mode N t st"
  shows "delay_line_inv rate D mode N t (recordCensorshipEvent st w ts c m multi)"
  by (rule delay_line_inv_cong[OF assms]) (simp_all add: recordCensorshipEvent_delay)

lemma censorRegion_record:
  "censorRegion (recordCensorshipEvent st w ts c m multi) cap ps pe = censorRegion st cap ps pe"
  by (simp add: censorRegion_def recordCensorshipEvent_delay)

text \<open>What \<^verbatim>\<open>processProfanity\<close> does when the flag is not raised.\<close>

lemma processProfanity_applied:
  assumes "\<not> bufferUnderrun st" and "censorRegion st cap ps pe = (c, s, e)"
  shows "processProfanity st w cap ps pe multi
         = applyCensor (recordCensorshipEvent st w ps True
                          (censorModeName (currentCensorMode st)) multi) c s e"
  using assms by (simp add: processProfanity_def Let_def censorRegion_record)

lemma processProfanity_inv:
  assumes "delay_line_inv rate D mode N t st"
  shows "delay_line_inv rate D mode N t (processProfanity st w cap ps pe multi)"
proof (cases "bufferUnderrun st")
  case True
  then show ?thesis
    using recordCensorshipEvent_inv[OF assms] by (simp add: processProfanity_def)
next
  case False
  obtain c s e where r: "censorRegion st cap ps pe = (c, s, e)"
    by (cases "censorRegion st cap ps pe")
  show ?thesis
    unfolding processProfanity_applied[OF False r]
    by (rule applyCensor_inv[OF recordCensorshipEvent_inv[OF assms]])
qed

lemma processProfanity_underrun:
  "bufferUnderrun (processProfanity st w cap ps pe multi) = bufferUnderrun st"
  "isRunning (processProfanity st w cap ps pe multi) = isRunning st"
  "chunkSeconds (processProfanity st w cap ps pe multi) = chunkSeconds st"
  by (simp_all add: processProfanity_def Let_def recordCensorshipEvent_delay applyCensor_def
               split: prod.splits CensorMode.splits)

lemma applyCensor_cell:
  assumes inv: "delay_line_inv rate D mode N t st" and N: "0 < N"
    and ch: "ch < 2" and p0: "0 \<le> p"
    and nc: "\<not> regionCovers N (c, s, e) p"
  shows "delayBuffer (applyCensor st c s e) ! ch ! nat p = delayBuffer st ! ch ! nat p"
proof -
  note i = inv[unfolded delay_line_inv_def Let_def]
  have l: "length (delayBuffer st) = 2" and sz: "delayBufferSize st = N" using i by simp_all
  have nc': "p \<notin> set (map (\<lambda>i. (c + i) mod N) [s .. e - 1])"
    using nc by (simp add: regionCovers_def)
  have m: "muteChannel N c s e (delayBuffer st ! ch) ! nat p = delayBuffer st ! ch ! nat p"
  proof -
    have "nat p \<notin> (\<lambda>i. nat ((c + i) mod N)) ` set [s .. e - 1]"
    proof
      assume "nat p \<in> (\<lambda>i. nat ((c + i) mod N)) ` set [s .. e - 1]"
      then obtain k where k: "k \<in> set [s .. e - 1]"
        and eq: "nat p = nat ((c + k) mod N)" by auto
      have "0 \<le> (c + k) mod N" using N by simp
      then have "p = (c + k) mod N" using eq p0 by simp
      then show False using nc' k by auto
    qed
    then show ?thesis unfolding muteChannel_def by (rule fold_update_other)
  qed
  have r: "reverseChannel N c s e (delayBuffer st ! ch) ! nat p = delayBuffer st ! ch ! nat p"
    by (rule reverseChannel_other[OF N p0 nc'])
  show ?thesis
    using m r by (simp add: applyCensor_buffer_nth[OF ch l] sz split: CensorMode.splits)
qed

lemma processProfanity_cell:
  assumes inv: "delay_line_inv rate D mode N t st" and N: "0 < N"
    and ch: "ch < 2" and p0: "0 \<le> p"
    and nc: "\<not> (\<not> bufferUnderrun st \<and> regionCovers N (censorRegion st cap ps pe) p)"
  shows "delayBuffer (processProfanity st w cap ps pe multi) ! ch ! nat p
         = delayBuffer st ! ch ! nat p"
proof (cases "bufferUnderrun st")
  case True
  then show ?thesis by (simp add: processProfanity_skipped(1))
next
  case False
  obtain c s e where r: "censorRegion st cap ps pe = (c, s, e)"
    by (cases "censorRegion st cap ps pe")
  have nc': "\<not> regionCovers N (c, s, e) p" using nc False r by simp
  show ?thesis
    unfolding processProfanity_applied[OF False r]
    using applyCensor_cell[OF recordCensorshipEvent_inv[OF inv] N ch p0 nc']
    by (simp add: recordCensorshipEvent_delay)
qed

lemma engineRun_simps:
  "engineRun st [] numOut = st"
  "engineRun st (ev # evs) numOut = engineRun (engineStep numOut ev st) evs numOut"
  "engineRun st (evs1 @ evs2) numOut = engineRun (engineRun st evs1 numOut) evs2 numOut"
  by (simp_all add: engineRun_def)

lemma frameCount_simps:
  "frameCount [] = 0"
  "frameCount (ev # evs) = length (eventFrames ev) + frameCount evs"
  "frameCount (evs1 @ evs2) = frameCount evs1 + frameCount evs2"
  "frameCount [Callback inp n] = n"
  by (simp_all add: frameCount_def inputFrames_def framesOf_length)

lemma inputFrames_simps:
  "inputFrames [] = []"
  "inputFrames (ev # evs) = eventFrames ev @ inputFrames evs"
  "inputFrames (evs1 @ evs2) = inputFrames evs1 @ inputFrames evs2"
  by (simp_all add: inputFrames_def)

lemma engineStep_inv:
  assumes sr: "0 < rate" and G0: "0 \<le> \<lceil>D * real_of_int rate\<rceil>"
    and GN: "\<lceil>D * real_of_int rate\<rceil> < N"
    and inv: "delay_line_inv rate D mode N t st"
  shows "delay_line_inv rate D mode N (t + length (eventFrames ev)) (engineStep numOut ev st)"
proof (cases ev)
  case (Callback inp n)
  show ?thesis
    using callback_inv[OF sr G0 GN inv, of n inp numOut]
    by (simp add: Callback framesOf_length)
next
  case TakeChunk
  have "delay_line_inv rate D mode N t
          (st\<lparr>workerCaptureTime := bufferCaptureTime st, hasNewBuffer := False\<rparr>)"
    by (rule delay_line_inv_cong[OF inv]) simp_all
  then show ?thesis by (simp add: TakeChunk)
next
  case (Profanity w ps pe multi)
  show ?thesis
    using processProfanity_inv[OF inv] by (simp add: Profanity)
qed

lemma engineRun_inv:
  assumes sr: "0 < rate" and G0: "0 \<le> \<lceil>D * real_of_int rate\<rceil>"
    and GN: "\<lceil>D * real_of_int rate\<rceil> < N"
    and inv: "delay_line_inv rate D mode N t st"
  shows "delay_line_inv rate D mode N (t + frameCount evs) (engineRun st evs numOut)"
  using inv
proof (induction evs arbitrary: t st)
  case Nil
  then show ?case by (simp add: engineRun_simps frameCount_simps)
next
  case (Cons ev evs)
  have "delay_line_inv rate D mode N (t + length (eventFrames ev)) (engineStep numOut ev st)"
    by (rule engineStep_inv[OF sr G0 GN Cons.prems])
  from Cons.IH[OF this] show ?case
    by (simp add: engineRun_simps frameCount_simps add.assoc)
qed

lemma engineStep_cell:
  assumes sr: "0 < rate" and G0: "0 \<le> \<lceil>D * real_of_int rate\<rceil>"
    and GN: "\<lceil>D * real_of_int rate\<rceil> < N"
    and inv: "delay_line_inv rate D mode N t st"
    and ch: "ch < 2"
    and a: "a < int t" "int t + int (length (eventFrames ev)) \<le> a + N"
    and un: "\<not> stepCovers st ev (a mod N)"
  shows "delayBuffer (engineStep numOut ev st) ! ch ! nat (a mod N)
         = delayBuffer st ! ch ! nat (a mod N)"
proof (cases ev)
  case (Callback inp n)
  have b: "int t + int n \<le> a + N" using a(2) by (simp add: Callback framesOf_length)
  show ?thesis
    using callback_cell[OF sr G0 GN inv ch a(1) b] by (simp add: Callback)
next
  case TakeChunk
  then show ?thesis by simp
next
  case (Profanity w ps pe multi)
  have N: "0 < N" using G0 GN by linarith
  have p0: "0 \<le> a mod N" using N by simp
  have sz: "delayBufferSize st = N" using inv[unfolded delay_line_inv_def Let_def] by simp
  have nc: "\<not> (\<not> bufferUnderrun st
              \<and> regionCovers N (censorRegion st (workerCaptureTime st) ps pe) (a mod N))"
    using un by (simp add: stepCovers_def Profanity sz)
  show ?thesis
    using processProfanity_cell[OF inv N ch p0 nc] by (simp add: Profanity)
qed

lemma engineRun_cell:
  assumes sr: "0 < rate" and G0: "0 \<le> \<lceil>D * real_of_int rate\<rceil>"
    and GN: "\<lceil>D * real_of_int rate\<rceil> < N"
    and inv: "delay_line_inv rate D mode N t st"
    and ch: "ch < 2"
    and a: "a < int t" "int t + int (frameCount evs) \<le> a + N"
    and un: "untouchedLate numOut (a mod N) r st evs" and r: "r \<le> 0"
  shows "delayBuffer (engineRun st evs numOut) ! ch ! nat (a mod N)
         = delayBuffer st ! ch ! nat (a mod N)"
  using inv a un r
proof (induction evs arbitrary: t st r)
  case Nil
  then show ?case by (simp add: engineRun_simps)
next
  case (Cons ev evs)
  let ?l = "length (eventFrames ev)"
  have inv1: "delay_line_inv rate D mode N (t + ?l) (engineStep numOut ev st)"
    by (rule engineStep_inv[OF sr G0 GN Cons.prems(1)])
  have b: "int t + int ?l \<le> a + N" using Cons.prems(3) by (simp add: frameCount_simps)
  have nc: "\<not> stepCovers st ev (a mod N)" using Cons.prems(4,5) by simp
  have un1: "untouchedLate numOut (a mod N) (r - int ?l) (engineStep numOut ev st) evs"
    using Cons.prems(4) by simp
  have r1: "r - int ?l \<le> 0" using Cons.prems(5) by simp
  have a1: "a < int (t + ?l)" using Cons.prems(2) by simp
  have b1: "int (t + ?l) + int (frameCount evs) \<le> a + N"
    using Cons.prems(3) by (simp add: frameCount_simps)
  have "delayBuffer (engineStep numOut ev st) ! ch ! nat (a mod N)
          = delayBuffer st ! ch ! nat (a mod N)"
    by (rule engineStep_cell[OF sr G0 GN Cons.prems(1) ch Cons.prems(2) b nc])
  with Cons.IH[OF inv1 a1 b1 un1 r1] show ?case by (simp add: engineRun_simps)
qed

subsection \<open>What a callback puts out\<close>

lemma eventFrames_Callback:
  assumes "i < length (eventFrames ev)"
  shows "\<exists>inp n. ev = Callback inp n"
  using assms by (cases ev) simp_all

lemma run_output:
  assumes sr: "0 < rate" and G0: "0 \<le> \<lceil>D * real_of_int rate\<rceil>"
    and GN: "\<lceil>D * real_of_int rate\<rceil> < N"
    and inv: "delay_line_inv rate D mode N t st"
    and j: "j < n" and a: "int t \<le> a"
    and k: "a + \<lceil>D * real_of_int rate\<rceil> = int t + int (frameCount evs) + int j"
    and un: "untouchedLate numOut (a mod N) (a + 1 - int t) st evs"
    and ch: "ch < numOut"
    and c: "min ch 1 < length (inputFrames (evs @ [Callback inp n]) ! nat (a - int t))"
  shows "fst (audioDeviceIOCallbackWithContext (engineRun st evs numOut) inp numOut n) ! j ! ch
         = inputFrames (evs @ [Callback inp n]) ! nat (a - int t) ! min ch 1"
  using inv a k un c
proof (induction evs arbitrary: t st)
  case Nil
  define i where "i = nat (a - int t)"
  have ia: "int i = a - int t" using Nil.prems(2) by (simp add: i_def)
  have ij: "int i + \<lceil>D * real_of_int rate\<rceil> = int j"
    using Nil.prems(3) ia by (simp add: frameCount_simps)
  have "i \<le> j" using ij G0 by linarith
  then have i_n: "i < n" using j by simp
  have fr: "inputFrames ([] @ [Callback inp n]) ! nat (a - int t) = framesOf inp n ! i"
    by (simp add: inputFrames_simps i_def)
  have cl: "min ch 1 < length inp"
    using Nil.prems(5) unfolding fr by (simp add: framesOf_nth(1)[OF i_n])
  show ?case
    unfolding fr engineRun_simps
    using callback_out_same[OF sr G0 GN Nil.prems(1) j ij ch cl]
          framesOf_nth(2)[OF i_n cl]
    by simp
next
  case (Cons ev evs)
  let ?G = "\<lceil>D * real_of_int rate\<rceil>"
  let ?l = "length (eventFrames ev)"
  let ?s1 = "engineStep numOut ev st"
  have inv1: "delay_line_inv rate D mode N (t + ?l) ?s1"
    by (rule engineStep_inv[OF sr G0 GN Cons.prems(1)])
  have un1: "untouchedLate numOut (a mod N) (a + 1 - int t - int ?l) ?s1 evs"
    using Cons.prems(4) by simp
  show ?case
  proof (cases "a - int t < int ?l")
    case True
    define i where "i = nat (a - int t)"
    have ia: "int i = a - int t" using Cons.prems(2) by (simp add: i_def)
    have il: "i < ?l" using True ia by linarith
    obtain inpX nX where ev: "ev = Callback inpX nX"
      using eventFrames_Callback[OF il] by blast
    have l: "?l = nX" by (simp add: ev framesOf_length)
    have i_n: "i < nX" using il l by simp
    have fr: "inputFrames ((ev # evs) @ [Callback inp n]) ! nat (a - int t)
                = framesOf inpX nX ! i"
      using i_n by (simp add: inputFrames_simps ev i_def[symmetric] nth_append framesOf_length)
    have cl: "min ch 1 < length inpX"
      using Cons.prems(5) unfolding fr by (simp add: framesOf_nth(1)[OF i_n])
    have c2: "min ch 1 < 2" by simp
    have kk: "a + ?G = int t + int nX + int (frameCount evs) + int j"
      using Cons.prems(3) by (simp add: frameCount_simps l)
    have nb: "int nX \<le> int i + N" using kk ia GN by linarith
    have at: "int t + int i = a" using ia by simp
    have w: "delayBuffer ?s1 ! min ch 1 ! nat (a mod N) = inpX ! min ch 1 ! i"
      using callback_written[OF sr G0 GN Cons.prems(1) i_n nb c2 cl, of numOut]
      by (simp add: ev at)
    have r0: "a + 1 - int t - int ?l \<le> 0" using True by simp
    have a1: "a < int (t + ?l)" using True by simp
    have b1: "int (t + ?l) + int (frameCount evs) \<le> a + N"
      using kk GN by (simp add: l)
    have cell: "delayBuffer (engineRun ?s1 evs numOut) ! min ch 1 ! nat (a mod N)
                  = delayBuffer ?s1 ! min ch 1 ! nat (a mod N)"
      by (rule engineRun_cell[OF sr G0 GN inv1 c2 a1 b1 un1 r0])
    have inv2: "delay_line_inv rate D mode N (t + ?l + frameCount evs)
                  (engineRun ?s1 evs numOut)"
      by (rule engineRun_inv[OF sr G0 GN inv1])
    have k2: "a + ?G = int (t + ?l + frameCount evs) + int j"
      using kk by (simp add: l)
    have a2: "a < int (t + ?l + frameCount evs)" using a1 by simp
    have a0: "0 \<le> a" using Cons.prems(2) by simp
    have out: "fst (audioDeviceIOCallbackWithContext (engineRun ?s1 evs numOut) inp numOut n)
                 ! j ! ch = delayBuffer (engineRun ?s1 evs numOut) ! min ch 1 ! nat (a mod N)"
      by (rule callback_out_earlier[OF sr G0 GN inv2 j k2 a2 a0 ch])
    show ?thesis
      unfolding fr engineRun_simps out cell w
      using framesOf_nth(2)[OF i_n cl] by simp
  next
    case False
    have a1: "int (t + ?l) \<le> a" using False by simp
    have k1: "a + ?G = int (t + ?l) + int (frameCount evs) + int j"
      using Cons.prems(3) by (simp add: frameCount_simps)
    have un2: "untouchedLate numOut (a mod N) (a + 1 - int (t + ?l)) ?s1 evs"
      using un1 by (simp add: algebra_simps)
    have n: "nat (a - int t) = ?l + nat (a - int (t + ?l))" using False Cons.prems(2) by simp
    have fr: "inputFrames ((ev # evs) @ [Callback inp n]) ! nat (a - int t)
                = inputFrames (evs @ [Callback inp n]) ! nat (a - int (t + ?l))"
      unfolding n by (simp add: inputFrames_simps nth_append)
    have c1: "min ch 1 < length (inputFrames (evs @ [Callback inp n]) ! nat (a - int (t + ?l)))"
      using Cons.prems(5) unfolding fr .
    show ?thesis
      unfolding fr engineRun_simps
      by (rule Cons.IH[OF inv1 a1 k1 un2 c1])
  qed
qed

lemma run_output_rewritten:
  assumes sr: "0 < rate" and G0: "0 \<le> \<lceil>D * real_of_int rate\<rceil>"
    and GN: "\<lceil>D * real_of_int rate\<rceil> < N"
    and inv: "delay_line_inv rate D mode N t st"
    and j: "j < n" and a: "0 \<le> a" "a < int t + int (frameCount e1)"
    and k: "a + \<lceil>D * real_of_int rate\<rceil>
              = int t + int (frameCount (e1 @ Profanity w ps pe multi # e2)) + int j"
    and un: "untouchedLate numOut (a mod N) 0
               (engineRun st (e1 @ [Profanity w ps pe multi]) numOut) e2"
    and ch: "ch < numOut"
  shows "fst (audioDeviceIOCallbackWithContext
                (engineRun st (e1 @ Profanity w ps pe multi # e2) numOut) inp numOut n) ! j ! ch
         = delayBuffer (engineRun st (e1 @ [Profanity w ps pe multi]) numOut)
             ! min ch 1 ! nat (a mod N)"
proof -
  let ?G = "\<lceil>D * real_of_int rate\<rceil>"
  let ?sr = "engineRun st (e1 @ [Profanity w ps pe multi]) numOut"
  have fc: "frameCount (e1 @ [Profanity w ps pe multi]) = frameCount e1"
    by (simp add: frameCount_simps)
  have invr: "delay_line_inv rate D mode N (t + frameCount e1) ?sr"
    using engineRun_inv[OF sr G0 GN inv, of "e1 @ [Profanity w ps pe multi]" numOut]
    by (simp add: fc)
  have run: "engineRun st (e1 @ Profanity w ps pe multi # e2) numOut = engineRun ?sr e2 numOut"
    by (simp add: engineRun_simps)
  have kk: "a + ?G = int (t + frameCount e1 + frameCount e2) + int j"
    using k by (simp add: frameCount_simps)
  have c2: "min ch 1 < 2" by simp
  have a1: "a < int (t + frameCount e1)" using a(2) by simp
  have b1: "int (t + frameCount e1) + int (frameCount e2) \<le> a + N" using kk GN by linarith
  have cell: "delayBuffer (engineRun ?sr e2 numOut) ! min ch 1 ! nat (a mod N)
                = delayBuffer ?sr ! min ch 1 ! nat (a mod N)"
    by (rule engineRun_cell[OF sr G0 GN invr c2 a1 b1 un]) simp
  have inv2: "delay_line_inv rate D mode N (t + frameCount e1 + frameCount e2)
                (engineRun ?sr e2 numOut)"
    by (rule engineRun_inv[OF sr G0 GN invr])
  have a2: "a < int (t + frameCount e1 + frameCount e2)" using a1 by simp
  have "fst (audioDeviceIOCallbackWithContext (engineRun ?sr e2 numOut) inp numOut n) ! j ! ch
          = delayBuffer (engineRun ?sr e2 numOut) ! min ch 1 ! nat (a mod N)"
    by (rule callback_out_earlier[OF sr G0 GN inv2 j kk a2 a(1) ch])
  then show ?thesis unfolding run cell .
qed

lemma processProfanity_mute:
  assumes inv: "delay_line_inv rate D Mute N t st" and N: "0 < N"
    and ch: "ch < 2" and ap: "\<not> bufferUnderrun st"
    and r: "censorRegion st cap ps pe = (c, s, e)"
    and cv: "regionCovers N (c, s, e) p"
  shows "delayBuffer (processProfanity st w cap ps pe multi) ! ch ! nat p = 0"
proof -
  let ?st1 = "recordCensorshipEvent st w ps True (censorModeName (currentCensorMode st)) multi"
  have inv1: "delay_line_inv rate D Mute N t ?st1" by (rule recordCensorshipEvent_inv[OF inv])
  note i = inv1[unfolded delay_line_inv_def Let_def]
  have l: "length (delayBuffer ?st1) = 2" and md: "currentCensorMode ?st1 = Mute"
    and sz: "delayBufferSize ?st1 = N" using i by simp_all
  have len: "length (delayBuffer ?st1 ! ch) = nat N"
    by (rule delay_line_inv_channel[OF inv1 ch])
  obtain k where k: "s \<le> k" "k < e" and pk: "p = (c + k) mod N"
    using cv by (auto simp add: regionCovers_def)
  have "delayBuffer (applyCensor ?st1 c s e) ! ch ! nat p
          = muteChannel N c s e (delayBuffer ?st1 ! ch) ! nat p"
    by (simp add: applyCensor_buffer_nth[OF ch l] md sz)
  also have "\<dots> = 0"
    unfolding pk by (rule muteChannel_covered[OF N len k])
  finally show ?thesis unfolding processProfanity_applied[OF ap r] .
qed

lemma processProfanity_reverse:
  assumes inv: "delay_line_inv rate D Reverse N t st" and N: "0 < N"
    and ch: "ch < 2" and ap: "\<not> bufferUnderrun st"
    and r: "censorRegion st cap ps pe = (c, s, e)"
    and n: "e - s \<le> N" and i: "0 \<le> i" "i < e - s"
  shows "delayBuffer (processProfanity st w cap ps pe multi) ! ch ! nat ((c + s + i) mod N)
         = delayBuffer st ! ch ! nat ((c + s + (e - s - 1 - i)) mod N)
           * reverseGain (e - s) (min 480 ((e - s) div 4)) i"
proof -
  let ?st1 = "recordCensorshipEvent st w ps True (censorModeName (currentCensorMode st)) multi"
  have inv1: "delay_line_inv rate D Reverse N t ?st1"
    by (rule recordCensorshipEvent_inv[OF inv])
  note j = inv1[unfolded delay_line_inv_def Let_def]
  have l: "length (delayBuffer ?st1) = 2" and md: "currentCensorMode ?st1 = Reverse"
    and sz: "delayBufferSize ?st1 = N" using j by simp_all
  have len: "length (delayBuffer ?st1 ! ch) = nat N"
    by (rule delay_line_inv_channel[OF inv1 ch])
  have "delayBuffer (applyCensor ?st1 c s e) ! ch ! nat ((c + s + i) mod N)
          = reverseChannel N c s e (delayBuffer ?st1 ! ch) ! nat ((c + s + i) mod N)"
    by (simp add: applyCensor_buffer_nth[OF ch l] md sz)
  also have "\<dots> = delayBuffer ?st1 ! ch ! nat ((c + s + (e - s - 1 - i)) mod N)
                     * reverseGain (e - s) (min 480 ((e - s) div 4)) i"
    by (rule reverseChannel_covered[OF N len n i])
  finally show ?thesis
    unfolding processProfanity_applied[OF ap r] by (simp add: recordCensorshipEvent_delay)
qed

subsection \<open>The buffer-health monitor in a run\<close>

lemma never_underrun_cong:
  assumes "never_underrun chunk st"
    and "isRunning st' = isRunning st" and "chunkSeconds st' = chunkSeconds st"
    and "bufferUnderrun st' = bufferUnderrun st"
    and "bufferUnderrunCount st' = bufferUnderrunCount st"
    and "totalWordsSkipped st' = totalWordsSkipped st"
  shows "never_underrun chunk st'"
  using assms by (simp add: never_underrun_def)

lemma measureInputLevel_health:
  "bufferUnderrun (measureInputLevel st inp n) = bufferUnderrun st"
  "bufferUnderrunCount (measureInputLevel st inp n) = bufferUnderrunCount st"
  "totalWordsSkipped (measureInputLevel st inp n) = totalWordsSkipped st"
  by (simp_all add: measureInputLevel_def)

lemma accumulateInput_health:
  "bufferUnderrun (accumulateInput st inp n) = bufferUnderrun st"
  "bufferUnderrunCount (accumulateInput st inp n) = bufferUnderrunCount st"
  "totalWordsSkipped (accumulateInput st inp n) = totalWordsSkipped st"
  by (simp_all add: accumulateInput_def split: prod.splits)

lemma identifySongAttempt_health:
  "bufferUnderrun (identifySongAttempt st) = bufferUnderrun st"
  "bufferUnderrunCount (identifySongAttempt st) = bufferUnderrunCount st"
  "totalWordsSkipped (identifySongAttempt st) = totalWordsSkipped st"
  by (simp_all add: identifySongAttempt_def Let_def)

lemma handoff_health:
  "bufferUnderrunCount (handoff st n) = bufferUnderrunCount st"
  "totalWordsSkipped (handoff st n) = totalWordsSkipped st"
  by (simp_all add: handoff_def Let_def)

lemma delayFrame_health:
  "isRunning (snd (delayFrame st frame numOut)) = isRunning st"
  "chunkSeconds (snd (delayFrame st frame numOut)) = chunkSeconds st"
  "bufferUnderrun (snd (delayFrame st frame numOut)) = bufferUnderrun st"
  "bufferUnderrunCount (snd (delayFrame st frame numOut)) = bufferUnderrunCount st"
  "totalWordsSkipped (snd (delayFrame st frame numOut)) = totalWordsSkipped st"
  by (simp_all add: delayFrame_def Let_def)

lemma delayFrames_health:
  "isRunning (delayFrames st frames numOut) = isRunning st"
  "chunkSeconds (delayFrames st frames numOut) = chunkSeconds st"
  "bufferUnderrun (delayFrames st frames numOut) = bufferUnderrun st"
  "bufferUnderrunCount (delayFrames st frames numOut) = bufferUnderrunCount st"
  "totalWordsSkipped (delayFrames st frames numOut) = totalWordsSkipped st"
  by (induction frames arbitrary: st) (simp_all add: delayFrames_simps delayFrame_health)

lemma applyCensor_health:
  "isRunning (applyCensor st c s e) = isRunning st"
  "chunkSeconds (applyCensor st c s e) = chunkSeconds st"
  "bufferUnderrun (applyCensor st c s e) = bufferUnderrun st"
  "bufferUnderrunCount (applyCensor st c s e) = bufferUnderrunCount st"
  "totalWordsSkipped (applyCensor st c s e) = totalWordsSkipped st"
  by (simp_all add: applyCensor_def split: CensorMode.splits)

lemma recordCensorshipEvent_health:
  "bufferUnderrunCount (recordCensorshipEvent st w ts c m multi) = bufferUnderrunCount st"
  "totalWordsSkipped (recordCensorshipEvent st w ts True m multi) = totalWordsSkipped st"
  by (simp_all add: recordCensorshipEvent_def Let_def)

text \<open>The gap the monitor reads once playback has started.\<close>

lemma playing_gap:
  assumes sr: "0 < rate" and G0: "0 \<le> \<lceil>D * real_of_int rate\<rceil>"
    and GN: "\<lceil>D * real_of_int rate\<rceil> < N"
    and inv: "delay_line_inv rate D mode N t st"
    and run: "isRunning st" and pl: "playbackStarted st"
  shows "getCurrentBufferSize st = real_of_int \<lceil>D * real_of_int rate\<rceil> / real_of_int rate"
    and "D \<le> getCurrentBufferSize st"
proof -
  define G where "G = \<lceil>D * real_of_int rate\<rceil>"
  note i = inv[unfolded delay_line_inv_def Let_def, folded G_def]
  have tG: "\<not> int t \<le> G" using i pl by (auto split: if_splits)
  have r: "delayReadPos st = (int t - G) mod N" using i tG by simp
  have w: "delayWritePos st = int t mod N" and n: "delayBufferSize st = N"
    and s: "sampleRate st = rate" using i by simp_all
  have g: "currentGap st = G"
    unfolding currentGap_def r w n using gap_started[of G N "int t"] G0 GN
    by (simp add: G_def)
  show e: "getCurrentBufferSize st = real_of_int \<lceil>D * real_of_int rate\<rceil> / real_of_int rate"
    using run by (simp add: getCurrentBufferSize_def g s G_def)
  have "D * real_of_int rate \<le> real_of_int G" unfolding G_def by linarith
  then have "D \<le> real_of_int G / real_of_int rate"
    using sr by (simp add: pos_le_divide_eq)
  then show "D \<le> getCurrentBufferSize st" unfolding e G_def .
qed

lemma monitorBufferHealth_idle:
  assumes sr: "0 < rate" and G0: "0 \<le> \<lceil>D * real_of_int rate\<rceil>"
    and GN: "\<lceil>D * real_of_int rate\<rceil> < N"
    and inv: "delay_line_inv rate D mode N t st"
    and h: "never_underrun chunk st" and c: "chunk + 1 / 2 \<le> D"
  shows "monitorBufferHealth st = st"
proof (cases "playbackStarted st")
  case True
  have run: "isRunning st" and ck: "chunkSeconds st = chunk" and f: "\<not> bufferUnderrun st"
    using h by (simp_all add: never_underrun_def)
  have "D \<le> getCurrentBufferSize st" by (rule playing_gap(2)[OF sr G0 GN inv run True])
  then have "\<not> getCurrentBufferSize st < chunkSeconds st + 5 / 10" using c ck by simp
  then show ?thesis using f by (simp add: monitorBufferHealth_def Let_def)
next
  case False
  have f: "\<not> bufferUnderrun st" using h by (simp add: never_underrun_def)
  show ?thesis using False f by (simp add: monitorBufferHealth_def Let_def)
qed

lemma beforeDelayLoop_idle:
  assumes sr: "0 < rate" and G0: "0 \<le> \<lceil>D * real_of_int rate\<rceil>"
    and GN: "\<lceil>D * real_of_int rate\<rceil> < N"
    and inv: "delay_line_inv rate D mode N t st"
    and h: "never_underrun chunk st" and c: "chunk + 1 / 2 \<le> D"
  shows "beforeDelayLoop st inp n
           = handoff (identifySongAttempt (accumulateInput (measureInputLevel st inp n) inp n)) n"
    and "never_underrun chunk (beforeDelayLoop st inp n)"
proof -
  let ?m = "handoff (identifySongAttempt (accumulateInput (measureInputLevel st inp n) inp n)) n"
  have invm: "delay_line_inv rate D mode N t ?m"
    by (rule delay_line_inv_cong[OF inv])
       (simp_all add: handoff_delay identifySongAttempt_delay accumulateInput_delay
                      measureInputLevel_delay)
  have hm: "never_underrun chunk ?m"
    by (rule never_underrun_cong[OF h])
       (simp_all add: handoff_delay handoff_health identifySongAttempt_delay
                      identifySongAttempt_health accumulateInput_delay accumulateInput_health
                      measureInputLevel_delay measureInputLevel_health)
  have "beforeDelayLoop st inp n = monitorBufferHealth ?m"
    by (simp add: beforeDelayLoop_def Let_def)
  then show e: "beforeDelayLoop st inp n = ?m"
    using monitorBufferHealth_idle[OF sr G0 GN invm hm c] by simp
  show "never_underrun chunk (beforeDelayLoop st inp n)" unfolding e by (rule hm)
qed

lemma callback_health:
  "isRunning (snd (audioDeviceIOCallbackWithContext st inp numOut n))
     = isRunning (beforeDelayLoop st inp n)"
  "chunkSeconds (snd (audioDeviceIOCallbackWithContext st inp numOut n))
     = chunkSeconds (beforeDelayLoop st inp n)"
  "bufferUnderrun (snd (audioDeviceIOCallbackWithContext st inp numOut n))
     = bufferUnderrun (beforeDelayLoop st inp n)"
  "bufferUnderrunCount (snd (audioDeviceIOCallbackWithContext st inp numOut n))
     = bufferUnderrunCount (beforeDelayLoop st inp n)"
  "totalWordsSkipped (snd (audioDeviceIOCallbackWithContext st inp numOut n))
     = totalWordsSkipped (beforeDelayLoop st inp n)"
  by (simp_all add: callback_state delayLoop_delayFrames delayFrames_health)

lemma processProfanity_health:
  assumes "never_underrun chunk st"
  shows "never_underrun chunk (processProfanity st w cap ps pe multi)"
proof -
  have f: "\<not> bufferUnderrun st" using assms by (simp add: never_underrun_def)
  obtain c s e where r: "censorRegion st cap ps pe = (c, s, e)" by (cases "censorRegion st cap ps pe")
  show ?thesis
    unfolding processProfanity_applied[OF f r]
    by (rule never_underrun_cong[OF assms])
       (simp_all add: applyCensor_health recordCensorshipEvent_health
                      recordCensorshipEvent_delay)
qed

lemma engineStep_health:
  assumes sr: "0 < rate" and G0: "0 \<le> \<lceil>D * real_of_int rate\<rceil>"
    and GN: "\<lceil>D * real_of_int rate\<rceil> < N"
    and inv: "delay_line_inv rate D mode N t st"
    and h: "never_underrun chunk st" and c: "chunk + 1 / 2 \<le> D"
  shows "never_underrun chunk (engineStep numOut ev st)"
proof (cases ev)
  case (Callback inp n)
  show ?thesis
    unfolding Callback engineStep.simps
    by (rule never_underrun_cong[OF beforeDelayLoop_idle(2)[OF sr G0 GN inv h c]])
       (simp_all add: callback_health)
next
  case TakeChunk
  show ?thesis
    unfolding TakeChunk engineStep.simps
    by (rule never_underrun_cong[OF h]) simp_all
next
  case (Profanity w ps pe multi)
  show ?thesis
    unfolding Profanity engineStep.simps by (rule processProfanity_health[OF h])
qed

lemma engineRun_health:
  assumes sr: "0 < rate" and G0: "0 \<le> \<lceil>D * real_of_int rate\<rceil>"
    and GN: "\<lceil>D * real_of_int rate\<rceil> < N"
    and inv: "delay_line_inv rate D mode N t st"
    and h: "never_underrun chunk st" and c: "chunk + 1 / 2 \<le> D"
  shows "never_underrun chunk (engineRun st evs numOut)"
  using inv h
proof (induction evs arbitrary: t st)
  case Nil
  then show ?case by (simp add: engineRun_simps)
next
  case (Cons ev evs)
  have i1: "delay_line_inv rate D mode N (t + length (eventFrames ev)) (engineStep numOut ev st)"
    by (rule engineStep_inv[OF sr G0 GN Cons.prems(1)])
  have h1: "never_underrun chunk (engineStep numOut ev st)"
    by (rule engineStep_health[OF sr G0 GN Cons.prems(1) Cons.prems(2) c])
  show ?case unfolding engineRun_simps by (rule Cons.IH[OF i1 h1])
qed

text \<open>The engine that \<^verbatim>\<open>start\<close> leaves.\<close>

lemma startedEngine_size:
  assumes sr: "0 < rate" and D: "0 \<le> D"
  shows "0 \<le> \<lceil>D * real_of_int rate\<rceil>"
    and "\<lceil>D * real_of_int rate\<rceil> < trunc_int (real_of_int rate * (D + 10))"
proof -
  have p: "0 \<le> D * real_of_int rate" using sr D by simp
  show "0 \<le> \<lceil>D * real_of_int rate\<rceil>" using p by linarith
  have e: "real_of_int rate * (D + 10) = D * real_of_int rate + real_of_int (10 * rate)"
    by (simp add: algebra_simps)
  have "trunc_int (real_of_int rate * (D + 10)) = \<lfloor>D * real_of_int rate + real_of_int (10 * rate)\<rfloor>"
    using p sr unfolding e by (simp add: trunc_int_def)
  also have "\<dots> = \<lfloor>D * real_of_int rate\<rfloor> + 10 * rate"
    by linarith
  finally have t: "trunc_int (real_of_int rate * (D + 10)) = \<lfloor>D * real_of_int rate\<rfloor> + 10 * rate" .
  have "\<lceil>D * real_of_int rate\<rceil> \<le> \<lfloor>D * real_of_int rate\<rfloor> + 1" by linarith
  then show "\<lceil>D * real_of_int rate\<rceil> < trunc_int (real_of_int rate * (D + 10))"
    unfolding t using sr by linarith
qed

lemma startedEngine_inv:
  assumes sr: "0 < rate" and D: "0 \<le> D"
  shows "delay_line_inv rate D mode (trunc_int (real_of_int rate * (D + 10))) 0
           (startedEngine rate chunk D mode recognition mediaInfo)"
proof -
  have "0 < trunc_int (real_of_int rate * (D + 10))"
    using startedEngine_size[OF sr D] by linarith
  then show ?thesis
    using startedEngine_size(1)[OF sr D]
    by (simp add: delay_line_inv_def startedEngine_def Let_def)
qed

lemma startedEngine_health:
  "never_underrun chunk (startedEngine rate chunk D mode recognition mediaInfo)"
  by (simp add: never_underrun_def startedEngine_def)

lemma startedEngine_buffer:
  "delayBufferSize (startedEngine rate chunk D mode recognition mediaInfo)
     = trunc_int (real_of_int rate * (D + 10))"
  by (simp add: startedEngine_def)

subsection \<open>Evaluating the rounding\<close>

lemma doublings_numeral:
  "doublings (numeral k) x = (if 1 \<le> x then 0 else 1 + doublings (pred_numeral k) (2 * x))"
  by (simp add: numeral_eq_Suc)

lemmas round_double_eval = round_double_def exponent2_def halvings.simps doublings_numeral
  ulp2_def round_half_even_def cast_int_def trunc_int_def

subsection \<open>What a run keeps\<close>

lemma default_size:
  "trunc_int (real_of_int 48000 * (3 + 10)) = 624000"
  "\<lceil>3 * real_of_int 48000\<rceil> = 144000"
  by (simp_all add: trunc_int_def)

lemma run_fields:
  assumes sr: "0 < rate" and D: "0 \<le> D" and c: "chunk + 1 / 2 \<le> D"
  shows "sampleRate (engineRun (startedEngine rate chunk D mode recognition mediaInfo) evs numOut)
           = rate"
    and "chunkSeconds (engineRun (startedEngine rate chunk D mode recognition mediaInfo) evs numOut)
           = chunk"
    and "delayBufferSize (engineRun (startedEngine rate chunk D mode recognition mediaInfo) evs numOut)
           = trunc_int (real_of_int rate * (D + 10))"
    and "currentCensorMode (engineRun (startedEngine rate chunk D mode recognition mediaInfo) evs numOut)
           = mode"
    and "\<not> bufferUnderrun (engineRun (startedEngine rate chunk D mode recognition mediaInfo) evs numOut)"
    and "delayWritePos (engineRun (startedEngine rate chunk D mode recognition mediaInfo) evs numOut)
           = int (frameCount evs) mod trunc_int (real_of_int rate * (D + 10))"
proof -
  let ?st0 = "startedEngine rate chunk D mode recognition mediaInfo"
  let ?N = "trunc_int (real_of_int rate * (D + 10))"
  note sz = startedEngine_size[OF sr D]
  have inv: "delay_line_inv rate D mode ?N (0 + frameCount evs) (engineRun ?st0 evs numOut)"
    by (rule engineRun_inv[OF sr sz startedEngine_inv[OF sr D]])
  note i = inv[unfolded delay_line_inv_def Let_def]
  have h: "never_underrun chunk (engineRun ?st0 evs numOut)"
    by (rule engineRun_health[OF sr sz startedEngine_inv[OF sr D] startedEngine_health c])
  show "sampleRate (engineRun ?st0 evs numOut) = rate" using i by simp
  show "delayBufferSize (engineRun ?st0 evs numOut) = ?N" using i by simp
  show "currentCensorMode (engineRun ?st0 evs numOut) = mode" using i by simp
  show "delayWritePos (engineRun ?st0 evs numOut) = int (frameCount evs) mod ?N" using i by simp
  show "chunkSeconds (engineRun ?st0 evs numOut) = chunk" using h by (simp add: never_underrun_def)
  show "\<not> bufferUnderrun (engineRun ?st0 evs numOut)" using h by (simp add: never_underrun_def)
qed

subsection \<open>The underrun flag\<close>


subsection \<open>The output of the delay line\<close>

text \<open>
  C1. Start the engine at rate \<open>rate\<close> with initial delay \<open>D\<close>; let \<open>G\<close> be \<open>\<lceil>D * rate\<rceil>\<close>, the
  number of frames that last \<open>D\<close> seconds (144000 for 3 seconds at 48 kHz), and \<open>N\<close> the
  size of the delay buffer. Take any run \<open>evs\<close> of callbacks and worker steps, and then
  one more callback; let \<open>out\<close> be the sample that callback puts out for its frame \<open>j\<close> on
  output channel \<open>ch\<close>, where at least \<open>G\<close> frames came before that frame, and let \<open>a\<close> be
  the number of the input frame that came \<open>G\<close> frames earlier, \<open>x\<close> that frame. Then the
  engine is playing after the callback (started, not paused), and:

  \<^item> when no rewrite applied after \<open>x\<close> was written covers the position \<open>a mod N\<close> of \<open>x\<close>
    in the delay buffer, and \<open>x\<close> has a channel \<open>min ch 1\<close>, \<open>out\<close> is the sample of \<open>x\<close> on
    that channel;
  \<^item> when the last rewrite that covers the position was applied after \<open>x\<close> was written,
    \<open>out\<close> is what that rewrite left there: zero in mute mode and, in reverse mode, the
    sample the buffer held at the mirrored position of the interval when the rewrite was
    applied, times the gain of \<open>reverseGain\<close> (one half, faded at the edges).

  With a single input channel the frame has no channel 1: the loop writes channel 0 of
  the delay buffer only, and output channels other than 0 read channel 1 of the buffer.
\<close>

theorem delay_line_output:
  fixes rate :: int and D chunk :: real and mode :: CensorMode
    and recognition :: SongRecognition and mediaInfo :: bool
    and evs :: "EngineEvent list" and inp :: "real list list" and n j ch numOut :: nat
  defines "st0 \<equiv> startedEngine rate chunk D mode recognition mediaInfo"
  defines "N \<equiv> delayBufferSize st0"
  defines "a \<equiv> int (frameCount evs) + int j - \<lceil>D * real_of_int rate\<rceil>"
  defines "x \<equiv> inputFrames (evs @ [Callback inp n]) ! nat a"
  defines "out \<equiv> fst (audioDeviceIOCallbackWithContext (engineRun st0 evs numOut)
                         inp numOut n) ! j ! ch"
  assumes sr: "0 < rate" and D: "0 \<le> D" and j: "j < n" and a0: "0 \<le> a"
    and ch: "ch < numOut"
  shows "playbackStarted (snd (audioDeviceIOCallbackWithContext (engineRun st0 evs numOut)
                                 inp numOut n))
       \<and> \<not> wasPaused (snd (audioDeviceIOCallbackWithContext (engineRun st0 evs numOut)
                                 inp numOut n))
       \<and> (untouchedLate numOut (a mod N) (a + 1) st0 evs \<and> min ch 1 < length x
            \<longrightarrow> out = x ! min ch 1)
       \<and> (\<forall>e1 w ps pe multi e2 c s e.
             evs = e1 @ Profanity w ps pe multi # e2 \<and> a < int (frameCount e1)
             \<and> \<not> bufferUnderrun (engineRun st0 e1 numOut)
             \<and> censorRegion (engineRun st0 e1 numOut)
                   (workerCaptureTime (engineRun st0 e1 numOut)) ps pe = (c, s, e)
             \<and> untouchedLate numOut (a mod N) 0
                   (engineRun st0 (e1 @ [Profanity w ps pe multi]) numOut) e2
             \<longrightarrow> (mode = Mute \<and> regionCovers N (c, s, e) (a mod N) \<longrightarrow> out = 0)
               \<and> (\<forall>i. mode = Reverse \<and> e - s \<le> N \<and> 0 \<le> i \<and> i < e - s
                        \<and> a mod N = (c + s + i) mod N
                     \<longrightarrow> out = delayBuffer (engineRun st0 e1 numOut) ! min ch 1
                                 ! nat ((c + s + (e - s - 1 - i)) mod N)
                               * reverseGain (e - s) (min 480 ((e - s) div 4)) i))"
proof -
  let ?G = "\<lceil>D * real_of_int rate\<rceil>"
  let ?cb = "audioDeviceIOCallbackWithContext (engineRun st0 evs numOut) inp numOut n"
  define cc where "cc = min ch 1"
  have c2: "cc < 2" by (simp add: cc_def)
  have Ndef: "N = trunc_int (real_of_int rate * (D + 10))"
    by (simp add: N_def st0_def startedEngine_buffer)
  have G0: "0 \<le> ?G" and GN: "?G < N"
    using startedEngine_size[OF sr D] by (simp_all add: Ndef)
  have N0: "0 < N" using G0 GN by linarith
  have inv0: "delay_line_inv rate D mode N 0 st0"
    unfolding Ndef st0_def by (rule startedEngine_inv[OF sr D])
  have k: "a + ?G = int 0 + int (frameCount evs) + int j" by (simp add: a_def)
  have invE: "delay_line_inv rate D mode N (0 + frameCount evs) (engineRun st0 evs numOut)"
    by (rule engineRun_inv[OF sr G0 GN inv0])
  have invC: "delay_line_inv rate D mode N (0 + frameCount evs + n) (snd ?cb)"
    by (rule callback_inv[OF sr G0 GN invE])
  have playing: "playbackStarted (snd ?cb) \<and> \<not> wasPaused (snd ?cb)"
  proof -
    have "\<not> int (0 + frameCount evs + n) \<le> ?G" using a0 j by (simp add: a_def)
    then show ?thesis using invC[unfolded delay_line_inv_def Let_def] by simp
  qed
  have direct: "untouchedLate numOut (a mod N) (a + 1) st0 evs \<and> min ch 1 < length x
                  \<longrightarrow> out = x ! min ch 1"
  proof
    assume h: "untouchedLate numOut (a mod N) (a + 1) st0 evs \<and> min ch 1 < length x"
    have a1: "int 0 \<le> a" using a0 by simp
    have un: "untouchedLate numOut (a mod N) (a + 1 - int 0) st0 evs" using h by simp
    have cl: "min ch 1 < length (inputFrames (evs @ [Callback inp n]) ! nat (a - int 0))"
      using h by (simp add: x_def)
    have "fst ?cb ! j ! ch = inputFrames (evs @ [Callback inp n]) ! nat (a - int 0) ! min ch 1"
      by (rule run_output[OF sr G0 GN inv0 j a1 k un ch cl])
    then show "out = x ! min ch 1" by (simp add: out_def x_def)
  qed
  have rewritten:
    "(mode = Mute \<and> regionCovers N (c, s, e) (a mod N) \<longrightarrow> out = 0)
     \<and> (\<forall>i. mode = Reverse \<and> e - s \<le> N \<and> 0 \<le> i \<and> i < e - s
              \<and> a mod N = (c + s + i) mod N
           \<longrightarrow> out = delayBuffer (engineRun st0 e1 numOut) ! min ch 1
                       ! nat ((c + s + (e - s - 1 - i)) mod N)
                     * reverseGain (e - s) (min 480 ((e - s) div 4)) i)"
    if e: "evs = e1 @ Profanity w ps pe multi # e2" and b: "a < int (frameCount e1)"
      and ap: "\<not> bufferUnderrun (engineRun st0 e1 numOut)"
      and r: "censorRegion (engineRun st0 e1 numOut)
                (workerCaptureTime (engineRun st0 e1 numOut)) ps pe = (c, s, e)"
      and un: "untouchedLate numOut (a mod N) 0
                 (engineRun st0 (e1 @ [Profanity w ps pe multi]) numOut) e2"
    for e1 w ps pe multi e2 c s e
  proof -
    let ?sm = "engineRun st0 e1 numOut"
    let ?sr = "engineRun st0 (e1 @ [Profanity w ps pe multi]) numOut"
    have b1: "a < int 0 + int (frameCount e1)" using b by simp
    have k1: "a + ?G = int 0 + int (frameCount (e1 @ Profanity w ps pe multi # e2)) + int j"
      using k by (simp add: e)
    have o: "out = delayBuffer ?sr ! min ch 1 ! nat (a mod N)"
      unfolding out_def e
      by (rule run_output_rewritten[OF sr G0 GN inv0 j a0 b1 k1 un ch])
    have srq: "?sr = processProfanity ?sm w (workerCaptureTime ?sm) ps pe multi"
      by (simp add: engineRun_simps)
    have invm: "delay_line_inv rate D mode N (0 + frameCount e1) ?sm"
      by (rule engineRun_inv[OF sr G0 GN inv0])
    have mute: "out = 0" if m: "mode = Mute" and cv: "regionCovers N (c, s, e) (a mod N)"
    proof -
      have im: "delay_line_inv rate D Mute N (0 + frameCount e1) ?sm" using invm m by simp
      show ?thesis
        unfolding o srq cc_def[symmetric]
        by (rule processProfanity_mute[OF im N0 c2 ap r cv])
    qed
    have reverse: "out = delayBuffer ?sm ! min ch 1 ! nat ((c + s + (e - s - 1 - i)) mod N)
                           * reverseGain (e - s) (min 480 ((e - s) div 4)) i"
      if m: "mode = Reverse" and n: "e - s \<le> N" and i: "0 \<le> i" "i < e - s"
        and p: "a mod N = (c + s + i) mod N" for i
    proof -
      have im: "delay_line_inv rate D Reverse N (0 + frameCount e1) ?sm" using invm m by simp
      show ?thesis
        unfolding o srq p cc_def[symmetric]
        by (rule processProfanity_reverse[OF im N0 c2 ap r n i])
    qed
    show ?thesis using mute reverse by blast
  qed
  have rewritten': "\<forall>e1 w ps pe multi e2 c s e.
             evs = e1 @ Profanity w ps pe multi # e2 \<and> a < int (frameCount e1)
             \<and> \<not> bufferUnderrun (engineRun st0 e1 numOut)
             \<and> censorRegion (engineRun st0 e1 numOut)
                   (workerCaptureTime (engineRun st0 e1 numOut)) ps pe = (c, s, e)
             \<and> untouchedLate numOut (a mod N) 0
                   (engineRun st0 (e1 @ [Profanity w ps pe multi]) numOut) e2
             \<longrightarrow> (mode = Mute \<and> regionCovers N (c, s, e) (a mod N) \<longrightarrow> out = 0)
               \<and> (\<forall>i. mode = Reverse \<and> e - s \<le> N \<and> 0 \<le> i \<and> i < e - s
                        \<and> a mod N = (c + s + i) mod N
                     \<longrightarrow> out = delayBuffer (engineRun st0 e1 numOut) ! min ch 1
                                 ! nat ((c + s + (e - s - 1 - i)) mod N)
                               * reverseGain (e - s) (min 480 ((e - s) div 4)) i)"
  proof (intro allI impI)
    fix e1 w ps pe multi e2 c s e
    assume h: "evs = e1 @ Profanity w ps pe multi # e2 \<and> a < int (frameCount e1)
             \<and> \<not> bufferUnderrun (engineRun st0 e1 numOut)
             \<and> censorRegion (engineRun st0 e1 numOut)
                   (workerCaptureTime (engineRun st0 e1 numOut)) ps pe = (c, s, e)
             \<and> untouchedLate numOut (a mod N) 0
                   (engineRun st0 (e1 @ [Profanity w ps pe multi]) numOut) e2"
    show "(mode = Mute \<and> regionCovers N (c, s, e) (a mod N) \<longrightarrow> out = 0)
               \<and> (\<forall>i. mode = Reverse \<and> e - s \<le> N \<and> 0 \<le> i \<and> i < e - s
                        \<and> a mod N = (c + s + i) mod N
                     \<longrightarrow> out = delayBuffer (engineRun st0 e1 numOut) ! min ch 1
                                 ! nat ((c + s + (e - s - 1 - i)) mod N)
                               * reverseGain (e - s) (min 480 ((e - s) div 4)) i)"
      by (rule rewritten[of e1 w ps pe multi e2 c s e])
         (use h in simp_all)
  qed
  show ?thesis
    by (intro conjI playing[THEN conjunct1] playing[THEN conjunct2] direct rewritten')
qed

subsection \<open>The capture time of a chunk\<close>

lemma measureInputLevel_capture:
  "bufferCaptureTime (measureInputLevel st inp n) = bufferCaptureTime st"
  by (simp add: measureInputLevel_def)

lemma accumulateInput_capture:
  "bufferCaptureTime (accumulateInput st inp n) = bufferCaptureTime st"
  by (simp add: accumulateInput_def split: prod.splits)

lemma identifySongAttempt_capture:
  "bufferCaptureTime (identifySongAttempt st) = bufferCaptureTime st"
  by (simp add: identifySongAttempt_def Let_def)

lemma monitorBufferHealth_capture:
  "bufferCaptureTime (monitorBufferHealth st) = bufferCaptureTime st"
  by (simp add: monitorBufferHealth_def Let_def)

lemma delayFrames_capture:
  "bufferCaptureTime (delayFrames st frames numOut) = bufferCaptureTime st"
  "hasNewBuffer (delayFrames st frames numOut) = hasNewBuffer st"
  "transcriptionInterval (delayFrames st frames numOut) = transcriptionInterval st"
  "workerCaptureTime (delayFrames st frames numOut) = workerCaptureTime st"
  by (induction frames arbitrary: st)
     (simp_all add: delayFrames_simps delayFrame_def Let_def)

lemma callback_capture:
  "bufferCaptureTime (snd (audioDeviceIOCallbackWithContext st inp numOut n))
     = bufferCaptureTime (beforeDelayLoop st inp n)"
  "hasNewBuffer (snd (audioDeviceIOCallbackWithContext st inp numOut n))
     = hasNewBuffer (beforeDelayLoop st inp n)"
  "transcriptionInterval (snd (audioDeviceIOCallbackWithContext st inp numOut n))
     = transcriptionInterval (beforeDelayLoop st inp n)"
  "workerCaptureTime (snd (audioDeviceIOCallbackWithContext st inp numOut n))
     = workerCaptureTime st"
  by (simp_all add: callback_state delayLoop_delayFrames delayFrames_capture
                    beforeDelayLoop_delay)

lemma callback_no_handoff:
  assumes "real_of_int (transcriptionInterval st + int n)
             < real_of_int (sampleRate st) * chunkSeconds st"
  shows "transcriptionInterval (snd (audioDeviceIOCallbackWithContext st inp numOut n))
           = transcriptionInterval st + int n"
    and "hasNewBuffer (snd (audioDeviceIOCallbackWithContext st inp numOut n))
           = hasNewBuffer st"
    and "bufferCaptureTime (snd (audioDeviceIOCallbackWithContext st inp numOut n))
           = bufferCaptureTime st"
  using assms
  by (simp_all add: callback_capture beforeDelayLoop_def Let_def
        monitorBufferHealth_capture monitorBufferHealth_accumulator handoff_def
        identifySongAttempt_accumulator identifySongAttempt_delay identifySongAttempt_capture
        accumulateInput_fields accumulateInput_delay accumulateInput_capture
        measureInputLevel_accumulator measureInputLevel_delay measureInputLevel_capture)

lemma callback_handoff:
  assumes "real_of_int (sampleRate st) * chunkSeconds st
             \<le> real_of_int (transcriptionInterval st + int n)"
    and "\<not> hasNewBuffer st"
  shows "bufferCaptureTime (snd (audioDeviceIOCallbackWithContext st inp numOut n))
           = real_of_int (delayWritePos st)"
    and "hasNewBuffer (snd (audioDeviceIOCallbackWithContext st inp numOut n))"
  using assms
  by (simp_all add: callback_capture beforeDelayLoop_def Let_def
        monitorBufferHealth_capture monitorBufferHealth_accumulator handoff_def
        identifySongAttempt_accumulator identifySongAttempt_delay identifySongAttempt_capture
        accumulateInput_fields accumulateInput_delay accumulateInput_capture
        measureInputLevel_accumulator measureInputLevel_delay measureInputLevel_capture)

lemma first_chunk_capture:
  "workerCaptureTime
     (engineRun (startedEngine 48000 2 3 mode recognition mediaInfo) first_chunk numOut) = 1000"
proof -
  let ?st0 = "startedEngine 48000 2 3 mode recognition mediaInfo"
  let ?s1 = "engineRun ?st0 [Callback (click 1000) 1000] numOut"
  let ?s2 = "snd (audioDeviceIOCallbackWithContext ?s1 (silence 95000) numOut 95000)"
  have r: "(0::int) < 48000" "(0::real) \<le> 3" "(2::real) + 1 / 2 \<le> 3" by simp_all
  note f = run_fields[OF r, of mode recognition mediaInfo "[Callback (click 1000) 1000]" numOut]
  have s1: "?s1 = snd (audioDeviceIOCallbackWithContext ?st0 (click 1000) numOut 1000)"
    by (simp add: engineRun_simps)
  have t0: "transcriptionInterval ?st0 = 0" "\<not> hasNewBuffer ?st0" "sampleRate ?st0 = 48000"
    "chunkSeconds ?st0 = 2"
    by (simp_all add: startedEngine_def)
  have lt: "real_of_int (transcriptionInterval ?st0 + int 1000)
              < real_of_int (sampleRate ?st0) * chunkSeconds ?st0"
    by (simp add: t0)
  have t1: "transcriptionInterval ?s1 = 1000" "\<not> hasNewBuffer ?s1"
    unfolding s1 using callback_no_handoff(1,2)[OF lt, of "click 1000" numOut] t0 by simp_all
  have w1: "delayWritePos ?s1 = 1000"
    using f(6) by (simp add: frameCount_simps(4) trunc_int_def)
  have ge: "real_of_int (sampleRate ?s1) * chunkSeconds ?s1
              \<le> real_of_int (transcriptionInterval ?s1 + int 95000)"
    by (simp add: f(1,2) t1)
  have c2: "bufferCaptureTime ?s2 = 1000"
    using callback_handoff(1)[OF ge t1(2), of "silence 95000" numOut] w1 by simp
  have "engineRun ?st0 first_chunk numOut
          = ?s2\<lparr>workerCaptureTime := bufferCaptureTime ?s2, hasNewBuffer := False\<rparr>"
    by (simp add: first_chunk_def engineRun_simps)
  then show ?thesis using c2 by simp
qed

lemma round_double_paddings:
  "round_double (4 / 10) = 7205759403792794 / 2 ^ 54"
  "round_double (1 / 10) = 7205759403792794 / 2 ^ 56"
  by (simp_all add: round_double_eval)

lemma region_casts:
  "cast_int (round_double (round_double (2 - round_double (4 / 10)) * real_of_int 48000)) = 76800"
  "cast_int (round_double (round_double (3 + round_double (1 / 10)) * real_of_int 48000)) = 148800"
  "cast_int (round_double (real_of_int 48000 * 2)) = 96000"
  "cast_int 1000 = 1000"
     apply (simp add: round_double_paddings, simp add: round_double_eval)
    apply (simp add: round_double_paddings, simp add: round_double_eval)
   apply (simp add: round_double_eval)
  apply (simp add: cast_int_def trunc_int_def)
  done

text \<open>
  The first sample of a word that starts at half a second, at 48 kHz: the double nearest
  0.4 is above 0.4, so the padded start is below a tenth of a second and the cast gives
  4799, not 4800.
\<close>

lemma padded_start_example:
  "cast_int (round_double (round_double (1 / 2 - round_double (4 / 10)) * real_of_int 48000))
     = 4799"
  by (simp add: round_double_paddings, simp add: round_double_eval)

lemma region_example:
  assumes "sampleRate st = 48000" and "chunkSeconds st = 2" and "delayBufferSize st = 624000"
  shows "censorRegion st 1000 2 3 = (529000, 76800, 96000)"
  unfolding censorRegion_def Let_def assms region_casts by simp

lemma first_chunk_region:
  "censorRegion (engineRun (startedEngine 48000 2 3 mode recognition mediaInfo) first_chunk numOut)
     (workerCaptureTime
        (engineRun (startedEngine 48000 2 3 mode recognition mediaInfo) first_chunk numOut)) 2 3
   = (529000, 76800, 96000)"
proof -
  have r: "(0::int) < 48000" "(0::real) \<le> 3" "(2::real) + 1 / 2 \<le> 3" by simp_all
  note f = run_fields[OF r, of mode recognition mediaInfo first_chunk numOut]
  have n: "delayBufferSize
             (engineRun (startedEngine 48000 2 3 mode recognition mediaInfo) first_chunk numOut)
           = 624000"
    using f(3) by (simp add: trunc_int_def)
  show ?thesis
    unfolding first_chunk_capture by (rule region_example[OF f(1) f(2) n])
qed

lemma first_chunk_frames: "frameCount first_chunk = 96000"
  by (simp add: first_chunk_def frameCount_simps framesOf_length)

subsection \<open>A single input channel\<close>

lemma writeFrame_mono:
  assumes "length frame \<le> 1" and "length db = 2"
  shows "writeFrame db w frame ! 1 = db ! 1" and "length (writeFrame db w frame) = 2"
proof -
  have "length frame = 0 \<or> length frame = 1" using assms(1) by linarith
  then show "writeFrame db w frame ! 1 = db ! 1"
    using assms(2) by (auto simp add: writeFrame_def)
  show "length (writeFrame db w frame) = 2"
    using assms(2) by (simp add: writeFrame_length)
qed

lemma delayFrames_mono:
  assumes "\<forall>frame \<in> set frames. length frame \<le> 1" and "length (delayBuffer st) = 2"
  shows "delayBuffer (delayFrames st frames numOut) ! 1 = delayBuffer st ! 1"
  using assms
proof (induction frames arbitrary: st)
  case Nil
  then show ?case by (simp add: delayFrames_simps)
next
  case (Cons frame frames)
  have l: "length frame \<le> 1" using Cons.prems(1) by simp
  have b: "delayBuffer (snd (delayFrame st frame numOut))
             = writeFrame (delayBuffer st) (delayWritePos st) frame"
    by (simp add: delayFrame_def Let_def)
  have l2: "length (delayBuffer (snd (delayFrame st frame numOut))) = 2"
    unfolding b by (rule writeFrame_mono(2)[OF l Cons.prems(2)])
  have "delayBuffer (delayFrames (snd (delayFrame st frame numOut)) frames numOut) ! 1
          = delayBuffer (snd (delayFrame st frame numOut)) ! 1"
    by (rule Cons.IH) (use Cons.prems(1) l2 in simp_all)
  then show ?case
    using writeFrame_mono(1)[OF l Cons.prems(2)] by (simp add: delayFrames_simps b)
qed

lemma framesOf_mono:
  assumes "length inp \<le> 1"
  shows "\<forall>frame \<in> set (framesOf inp n). length frame \<le> 1"
  using assms by (auto simp add: framesOf_def)

lemma callback_mono:
  assumes "length inp \<le> 1" and "length (delayBuffer st) = 2"
  shows "delayBuffer (snd (audioDeviceIOCallbackWithContext st inp numOut n)) ! 1
           = delayBuffer st ! 1"
  using delayFrames_mono[OF framesOf_mono[OF assms(1)], of "beforeDelayLoop st inp n" n numOut]
        assms(2)
  by (simp add: callback_delay_state beforeDelayLoop_delay)

subsection \<open>The examples\<close>

lemma callback_frame_length:
  assumes "j < n"
  shows "length (fst (audioDeviceIOCallbackWithContext st inp numOut n) ! j) = numOut"
proof -
  have jl: "j < length (framesOf inp n)" using assms by (simp add: framesOf_length)
  show ?thesis
    unfolding callback_output delayLoop_outputs[OF jl]
    by (simp add: delayFrame_def Let_def)
qed

lemma default_run:
  "delay_line_inv 48000 3 mode 624000 (frameCount evs)
     (engineRun (startedEngine 48000 2 3 mode recognition mediaInfo) evs numOut)"
  "never_underrun 2 (engineRun (startedEngine 48000 2 3 mode recognition mediaInfo) evs numOut)"
proof -
  have r: "(0::int) < 48000" "(0::real) \<le> 3" "(2::real) + 1 / 2 \<le> 3" by simp_all
  note sz = startedEngine_size[OF r(1,2)]
  note i0 = startedEngine_inv[OF r(1,2), of mode 2 recognition mediaInfo]
  have "delay_line_inv 48000 3 mode (trunc_int (real_of_int 48000 * (3 + 10)))
          (0 + frameCount evs)
          (engineRun (startedEngine 48000 2 3 mode recognition mediaInfo) evs numOut)"
    by (rule engineRun_inv[OF r(1) sz i0])
  then show "delay_line_inv 48000 3 mode 624000 (frameCount evs)
     (engineRun (startedEngine 48000 2 3 mode recognition mediaInfo) evs numOut)"
    by (simp add: trunc_int_def)
  show "never_underrun 2
          (engineRun (startedEngine 48000 2 3 mode recognition mediaInfo) evs numOut)"
    by (rule engineRun_health[OF r(1) sz i0 startedEngine_health r(3)])
qed



lemma click_frame:
  "0 < n \<Longrightarrow> framesOf (click n) n ! 0 = [1 / 2, 1 / 4]"
  "0 < n \<Longrightarrow> framesOf (mono_click n) n ! 0 = [1 / 2]"
  by (simp_all add: framesOf_def click_def mono_click_def upt_conv_Cons)

lemma list_two: "length xs = 2 \<Longrightarrow> xs = [xs ! 0, xs ! 1]"
  by (auto simp add: numeral_2_eq_2 length_Suc_conv)

lemma region_covers_example: "regionCovers 624000 (529000, 76800, 96000) 0"
proof -
  have "(0::int) \<in> (\<lambda>i. (529000 + i) mod 624000) ` {76800 .. 96000 - 1}"
    by (rule image_eqI[where x = 95000]) simp_all
  then show ?thesis by (simp add: regionCovers_def)
qed

text \<open>
  C1 was stated for every output sample. The engine at 48 kHz with one input channel and
  two output channels, after a callback of 144000 frames of which the first is 1/2: the
  first frame of the next callback comes 144000 frames after that frame, no rewrite was
  applied, and it carries 1/2 on output channel 0 and 0 on output channel 1.
\<close>

theorem delay_line_output_counterexample:
  "inputFrames ([Callback (mono_click 144000) 144000] @ [Callback [[0]] 1]) ! 0 = [1 / 2]
   \<and> fst (audioDeviceIOCallbackWithContext
            (engineRun (startedEngine 48000 2 3 Mute no_recognition True)
               [Callback (mono_click 144000) 144000] 2) [[0]] 2 1) ! 0 = [1 / 2, 0]"
proof -
  let ?st0 = "startedEngine 48000 2 3 Mute no_recognition True"
  let ?evs = "[Callback (mono_click 144000) 144000]"
  let ?s = "engineRun ?st0 ?evs 2"
  let ?out = "fst (audioDeviceIOCallbackWithContext ?s [[0]] 2 1) ! 0"
  have r: "(0::int) < 48000" "(0::int) \<le> \<lceil>3 * real_of_int 48000\<rceil>"
    "\<lceil>3 * real_of_int 48000\<rceil> < (624000::int)" by simp_all
  have fr: "inputFrames (?evs @ [Callback [[0]] 1]) ! 0 = [1 / 2]"
    by (simp add: inputFrames_simps nth_append framesOf_length click_frame)
  have inv0: "delay_line_inv 48000 3 Mute 624000 0 ?st0"
    using default_run(1)[of Mute "[]" no_recognition True 2]
    by (simp add: engineRun_simps frameCount_simps)
  have inv: "delay_line_inv 48000 3 Mute 624000 144000 ?s"
    using default_run(1)[of Mute ?evs no_recognition True 2] by (simp add: frameCount_simps(4))
  have len: "length ?out = 2" by (rule callback_frame_length) simp
  have o0: "?out ! 0 = 1 / 2"
  proof -
    have k: "0 + \<lceil>3 * real_of_int 48000\<rceil> = int 0 + int (frameCount ?evs) + int 0"
      by (simp add: frameCount_simps(4))
    have un: "untouchedLate 2 (0 mod 624000) (0 + 1 - int 0) ?st0 ?evs"
      by (simp add: stepCovers_def)
    have c: "min 0 1 < length (inputFrames (?evs @ [Callback [[0]] 1]) ! nat (0 - int 0))"
      using fr by simp
    have j: "(0::nat) < 1" "int 0 \<le> 0" "(0::nat) < 2" by simp_all
    have "?out ! 0 = inputFrames (?evs @ [Callback [[0]] 1]) ! nat (0 - int 0) ! min 0 1"
      by (rule run_output[OF r inv0 j(1) j(2) k un j(3) c])
    then show ?thesis using fr by simp
  qed
  have o1: "?out ! 1 = 0"
  proof -
    have "?out ! 1 = delayBuffer ?s ! min 1 1 ! nat (0 mod 624000)"
      by (rule callback_out_earlier[OF r inv]) simp_all
    moreover have "delayBuffer ?s ! 1 = delayBuffer ?st0 ! 1"
      unfolding engineRun_simps engineStep.simps
      by (rule callback_mono) (simp_all add: mono_click_def startedEngine_def)
    moreover have "delayBuffer ?st0 ! 1 ! 0 = 0"
      by (simp add: startedEngine_def trunc_int_def)
    ultimately show ?thesis by simp
  qed
  have "?out = [?out ! 0, ?out ! 1]" by (rule list_two[OF len])
  then have "?out = [1 / 2, 0]" unfolding o0 o1 .
  then show ?thesis using fr by simp
qed

text \<open>
  C1 at 48 kHz with the constants of \<^verbatim>\<open>AudioEngine.h\<close>, on output channel 1 of two. The
  frame \<open>[1/2, 1/4]\<close> comes out as 1/4 after 144000 frames. When it is the first frame of
  the first chunk and a word from 2 to 3 seconds of that chunk is censored, the rewrite
  covers the positions 605800 to 623999 and 0 to 999 of the delay buffer, and the frame
  comes out as 0 in mute mode and, in reverse mode, as half of what position 606799 held
  when the rewrite was applied.
\<close>

theorem delay_line_output_witness:
  "fst (audioDeviceIOCallbackWithContext
          (engineRun (startedEngine 48000 2 3 Mute no_recognition True)
             [Callback (click 144000) 144000] 2) (silence 1) 2 1) ! 0 ! 1 = 1 / 4
   \<and> censorRegion (engineRun (startedEngine 48000 2 3 Mute no_recognition True) first_chunk 2)
        (workerCaptureTime
           (engineRun (startedEngine 48000 2 3 Mute no_recognition True) first_chunk 2)) 2 3
      = (529000, 76800, 96000)
   \<and> regionCovers 624000 (529000, 76800, 96000) 0
   \<and> fst (audioDeviceIOCallbackWithContext
            (engineRun (startedEngine 48000 2 3 Mute no_recognition True)
               (first_chunk @ Profanity ''word'' 2 3 False # [Callback (silence 48000) 48000]) 2)
            (silence 1) 2 1) ! 0 ! 1 = 0
   \<and> fst (audioDeviceIOCallbackWithContext
            (engineRun (startedEngine 48000 2 3 Reverse no_recognition True)
               (first_chunk @ Profanity ''word'' 2 3 False # [Callback (silence 48000) 48000]) 2)
            (silence 1) 2 1) ! 0 ! 1
      = delayBuffer (engineRun (startedEngine 48000 2 3 Reverse no_recognition True)
                       first_chunk 2) ! 1 ! 606799 * (1 / 2)"
proof -
  let ?e1 = "[Callback (click 144000) 144000]"
  let ?e2 = "first_chunk @ Profanity ''word'' 2 3 False # [Callback (silence 48000) 48000]"
  have h: "(0::int) < 48000" "(0::real) \<le> 3" "(0::nat) < 1" "(1::nat) < 2" by simp_all
  have N: "delayBufferSize (startedEngine 48000 2 3 mode no_recognition True) = 624000" for mode
    by (simp add: startedEngine_def trunc_int_def)
  have a1: "int (frameCount ?e1) + int 0 - \<lceil>3 * real_of_int 48000\<rceil> = 0"
    by (simp add: frameCount_simps(4))
  have a2: "int (frameCount ?e2) + int 0 - \<lceil>3 * real_of_int 48000\<rceil> = 0"
    by (simp add: frameCount_simps(1,2,3) first_chunk_frames framesOf_length)
  have x1: "inputFrames (?e1 @ [Callback (silence 1) 1]) ! nat 0 = [1 / 2, 1 / 4]"
    by (simp add: inputFrames_simps nth_append framesOf_length click_frame)
  note t1 = delay_line_output[where rate = 48000 and D = 3 and chunk = 2 and mode = Mute
      and recognition = no_recognition and mediaInfo = True and evs = ?e1
      and inp = "silence 1" and n = 1 and j = 0 and ch = 1 and numOut = 2,
      unfolded a1 N x1, OF h(1) h(2) h(3) order_refl h(4)]
  have w1: "fst (audioDeviceIOCallbackWithContext
          (engineRun (startedEngine 48000 2 3 Mute no_recognition True) ?e1 2)
          (silence 1) 2 1) ! 0 ! 1 = 1 / 4"
    using t1[THEN conjunct2, THEN conjunct2, THEN conjunct1]
    by (simp add: stepCovers_def)
  note t2 = delay_line_output[where rate = 48000 and D = 3 and chunk = 2 and mode = Mute
      and recognition = no_recognition and mediaInfo = True and evs = ?e2
      and inp = "silence 1" and n = 1 and j = 0 and ch = 1 and numOut = 2,
      unfolded a2 N, OF h(1) h(2) h(3) order_refl h(4)]
  note t3 = delay_line_output[where rate = 48000 and D = 3 and chunk = 2 and mode = Reverse
      and recognition = no_recognition and mediaInfo = True and evs = ?e2
      and inp = "silence 1" and n = 1 and j = 0 and ch = 1 and numOut = 2,
      unfolded a2 N, OF h(1) h(2) h(3) order_refl h(4)]
  have u: "\<not> bufferUnderrun
             (engineRun (startedEngine 48000 2 3 mode no_recognition True) first_chunk 2)" for mode
    using default_run(2)[of mode no_recognition True first_chunk 2]
    by (simp add: never_underrun_def)
  have w2: "fst (audioDeviceIOCallbackWithContext
            (engineRun (startedEngine 48000 2 3 Mute no_recognition True) ?e2 2)
            (silence 1) 2 1) ! 0 ! 1 = 0"
    using t2[THEN conjunct2, THEN conjunct2, THEN conjunct2, rule_format,
             of first_chunk "''word''" 2 3 False "[Callback (silence 48000) 48000]"
                529000 76800 96000, THEN conjunct1]
          u first_chunk_region[of Mute no_recognition True 2] region_covers_example
    by (simp add: first_chunk_frames stepCovers_def)
  have w3: "fst (audioDeviceIOCallbackWithContext
            (engineRun (startedEngine 48000 2 3 Reverse no_recognition True) ?e2 2)
            (silence 1) 2 1) ! 0 ! 1
      = delayBuffer (engineRun (startedEngine 48000 2 3 Reverse no_recognition True)
                       first_chunk 2) ! 1 ! 606799 * (1 / 2)"
    using t3[THEN conjunct2, THEN conjunct2, THEN conjunct2, rule_format,
             of first_chunk "''word''" 2 3 False "[Callback (silence 48000) 48000]"
                529000 76800 96000, THEN conjunct2, rule_format, of 18200]
          u first_chunk_region[of Reverse no_recognition True 2]
    by (simp add: first_chunk_frames stepCovers_def reverseGain_def)
  show ?thesis
    using w1 w2 w3 first_chunk_region[of Mute no_recognition True 2] region_covers_example
    by simp
qed

end
